theory Spec2Isabelle
  imports Main "HOL-Library.Word" "HOL-Library.Char_ord" "HOL-Library.List_Lexorder"
begin

section \<open>Go strings\<close>

text \<open>
  A Go \<^verbatim>\<open>string\<close> is a byte sequence; it is modelled as \<^typ>\<open>string\<close>
  (a list of 8-bit characters). The functions below are the parts of package
  \<^verbatim>\<open>strings\<close> that the server calls, written as recursive functions over that list.
\<close>

definition HasPrefix :: "string \<Rightarrow> string \<Rightarrow> bool" where
  "HasPrefix s pre = (take (length pre) s = pre)"

definition HasSuffix :: "string \<Rightarrow> string \<Rightarrow> bool" where
  "HasSuffix s suf = (length suf \<le> length s \<and> drop (length s - length suf) s = suf)"

definition TrimPrefix :: "string \<Rightarrow> string \<Rightarrow> string" where
  "TrimPrefix s pre = (if HasPrefix s pre then drop (length pre) s else s)"

text \<open>\<^verbatim>\<open>strings.Contains(s, substr)\<close>: a scan for the first position where substr starts.\<close>

fun Contains :: "string \<Rightarrow> string \<Rightarrow> bool" where
  "Contains [] sub = (sub = [])"
| "Contains (c # cs) sub = (HasPrefix (c # cs) sub \<or> Contains cs sub)"

text \<open>
  \<^verbatim>\<open>strings.Split(s, sep)\<close> for a one-byte separator, the only way the server calls it
  (\<^verbatim>\<open>"/"\<close> and \<^verbatim>\<open>"\n"\<close>). The result is never empty: the empty string splits into
  one empty field.
\<close>

fun Split :: "string \<Rightarrow> char \<Rightarrow> string list" where
  "Split [] sep = [[]]"
| "Split (c # cs) sep =
     (if c = sep then [] # Split cs sep
      else (c # hd (Split cs sep)) # tl (Split cs sep))"

text \<open>\<^verbatim>\<open>strings.Join(elems, sep)\<close> for a one-byte separator.\<close>

fun Join :: "string list \<Rightarrow> char \<Rightarrow> string" where
  "Join [] sep = []"
| "Join [x] sep = x"
| "Join (x # y # ys) sep = x @ sep # Join (y # ys) sep"

text \<open>
  \<^verbatim>\<open>strings.ToLower\<close> works on the runes (Unicode code points) that the bytes encode in
  UTF-8. A rune is modelled as a natural number. \<^verbatim>\<open>utf8.DecodeRuneInString\<close> reads the
  first rune of a non-empty string and returns it with the number of bytes it takes; a byte
  sequence that is not the shortest UTF-8 encoding of a code point (a stray continuation
  byte, a truncated or overlong sequence, a surrogate, a value above U+10FFFF) yields
  \<^verbatim>\<open>utf8.RuneError\<close> of width 1.
\<close>

type_synonym rune = nat

definition RuneError :: rune where
  "RuneError = 0xFFFD"

definition DecodeRuneInString :: "string \<Rightarrow> rune \<times> nat" where
  "DecodeRuneInString s =
     (let b = (\<lambda>i. of_char (s ! i) :: nat); s0 = b 0 in
      if s0 < 0x80 then (s0, 1)
      else if s0 < 0xC2 \<or> 0xF4 < s0 then (RuneError, 1)
      else
        let sz = (if s0 < 0xE0 then 2 else if s0 < 0xF0 then 3 else 4 :: nat);
            lo = (if s0 = 0xE0 then 0xA0 else if s0 = 0xF0 then 0x90 else 0x80);
            hi = (if s0 = 0xED then 0x9F else if s0 = 0xF4 then 0x8F else 0xBF)
        in
          if length s < sz then (RuneError, 1)
          else if b 1 < lo \<or> hi < b 1 then (RuneError, 1)
          else if sz \<le> 2 then ((s0 mod 0x20) * 0x40 + b 1 mod 0x40, 2)
          else if b 2 < 0x80 \<or> 0xBF < b 2 then (RuneError, 1)
          else if sz \<le> 3
            then ((s0 mod 0x10) * 0x1000 + (b 1 mod 0x40) * 0x40 + b 2 mod 0x40, 3)
          else if b 3 < 0x80 \<or> 0xBF < b 3 then (RuneError, 1)
          else ((s0 mod 8) * 0x40000 + (b 1 mod 0x40) * 0x1000 + (b 2 mod 0x40) * 0x40
                  + b 3 mod 0x40, 4))"

text \<open>
  The runes of a string, as \<^verbatim>\<open>for _, c := range s\<close> yields them: decode one rune, skip its
  bytes, repeat. (The width is at least 1, so \<open>width - 1\<close> bytes are dropped after the
  first.)
\<close>

function runes :: "string \<Rightarrow> rune list" where
  "runes [] = []"
| "runes (c # cs) =
     fst (DecodeRuneInString (c # cs))
       # runes (drop (snd (DecodeRuneInString (c # cs)) - 1) cs)"
  by pat_completeness auto
termination
  by (relation "measure length") simp_all

text \<open>
  \<^verbatim>\<open>utf8.AppendRune\<close>, by which \<^verbatim>\<open>strings.Builder.WriteRune\<close> writes a rune: one to four
  bytes; a surrogate or a value above U+10FFFF is written as \<^verbatim>\<open>utf8.RuneError\<close>.
\<close>

definition EncodeRune :: "rune \<Rightarrow> string" where
  "EncodeRune r =
     (if r \<le> 0x7F then [char_of r]
      else if r \<le> 0x7FF then [char_of (0xC0 + r div 0x40), char_of (0x80 + r mod 0x40)]
      else if 0x10FFFF < r \<or> (0xD800 \<le> r \<and> r \<le> 0xDFFF)
        then [char_of (0xEF :: nat), char_of (0xBF :: nat), char_of (0xBD :: nat)]
      else if r \<le> 0xFFFF
        then [char_of (0xE0 + r div 0x1000), char_of (0x80 + r div 0x40 mod 0x40),
              char_of (0x80 + r mod 0x40)]
      else [char_of (0xF0 + r div 0x40000), char_of (0x80 + r div 0x1000 mod 0x40),
            char_of (0x80 + r div 0x40 mod 0x40), char_of (0x80 + r mod 0x40)])"

text \<open>
  \<^verbatim>\<open>strings.Map(mapping, s)\<close> for a mapping that never returns a negative value (a negative
  value would drop the rune): every rune of the string is replaced by the encoding of its
  image. An invalid byte is read as \<^verbatim>\<open>utf8.RuneError\<close> and written as the image of that.
\<close>

definition Map_runes :: "(rune \<Rightarrow> rune) \<Rightarrow> string \<Rightarrow> string" where
  "Map_runes mapping s = concat (map (\<lambda>c. EncodeRune (mapping c)) (runes s))"

text \<open>
  \<^verbatim>\<open>strings.ToLower\<close>. A string of ASCII bytes only is lower-cased byte by byte: A to Z
  become a to z. Any other string is mapped rune by rune through \<^verbatim>\<open>unicode.ToLower\<close>,
  which is given by the case tables of package \<^verbatim>\<open>unicode\<close> and is a parameter here. Among
  its entries are U+0130 (capital I with dot above), whose lower case is the ASCII letter i,
  and U+212A (the Kelvin sign), whose lower case is k.
\<close>

definition lower_byte :: "char \<Rightarrow> char" where
  "lower_byte c =
     (case map_of (zip ''ABCDEFGHIJKLMNOPQRSTUVWXYZ'' ''abcdefghijklmnopqrstuvwxyz'') c of
        Some l \<Rightarrow> l
      | None \<Rightarrow> c)"

definition ToLower :: "(rune \<Rightarrow> rune) \<Rightarrow> string \<Rightarrow> string" where
  "ToLower unicode_ToLower s =
     (if list_all (\<lambda>c. (of_char c :: nat) < 0x80) s then map lower_byte s
      else Map_runes unicode_ToLower s)"

text \<open>The \<^verbatim>\<open>%d\<close> verb of \<^verbatim>\<open>fmt\<close> on a non-negative number.\<close>

function Itoa :: "nat \<Rightarrow> string" where
  "Itoa n = (if n < 10 then [''0123456789'' ! n] else Itoa (n div 10) @ [''0123456789'' ! (n mod 10)])"
  by pat_completeness auto
termination
  by (relation "measure id") auto

declare Itoa.simps [simp del]

section \<open>Path validation (\<^verbatim>\<open>validatePath\<close>)\<close>

text \<open>The character class \<^verbatim>\<open>[a-zA-Z0-9_/.-]\<close> of the regular expression.\<close>

definition valid_char :: "char \<Rightarrow> bool" where
  "valid_char c =
     (let n = (of_char c :: nat) in
        (97 \<le> n \<and> n \<le> 122) \<or> (65 \<le> n \<and> n \<le> 90) \<or> (48 \<le> n \<and> n \<le> 57)
        \<or> c = CHR ''_'' \<or> c = CHR ''/'' \<or> c = CHR ''.'' \<or> c = CHR ''-'')"

text \<open>
  \<^verbatim>\<open>regexp.MustCompile(`^[a-zA-Z0-9_/.-]+$`).MatchString\<close>: one or more characters of the
  class, anchored at both ends of the text.
\<close>

fun validPath_MatchString :: "string \<Rightarrow> bool" where
  "validPath_MatchString [] = False"
| "validPath_MatchString [c] = valid_char c"
| "validPath_MatchString (c # d # cs) = (valid_char c \<and> validPath_MatchString (d # cs))"

text \<open>The result is Go's \<^verbatim>\<open>error\<close>: \<open>None\<close> is \<^verbatim>\<open>nil\<close>, \<open>Some msg\<close> the error text.\<close>

definition validatePath :: "string \<Rightarrow> string option" where
  "validatePath path =
     (if \<not> HasPrefix path ''/'' then Some ''path must start with /''
      else if \<not> HasSuffix path ''.sh'' then Some ''path must end with .sh''
      else if \<not> validPath_MatchString path then Some ''path contains invalid characters''
      else None)"

text \<open>
  The path grammar \<^verbatim>\<open>^/[A-Za-z0-9_/.-]+\.sh$\<close> as the specification words it: a slash, one
  or more characters of the class, and the suffix \<^verbatim>\<open>.sh\<close>.
\<close>

definition path_grammar :: "string \<Rightarrow> bool" where
  "path_grammar p =
     (case p of
        [] \<Rightarrow> False
      | c # rest \<Rightarrow>
          c = CHR ''/'' \<and> HasSuffix rest ''.sh''
          \<and> take (length rest - 3) rest \<noteq> []
          \<and> list_all valid_char (take (length rest - 3) rest))"

section \<open>Requests\<close>

text \<open>
  The parts of \<^verbatim>\<open>*http.Request\<close> the handlers read. \<open>Query\<close> and \<open>Header\<close> are
  key/value lists; \<open>Get\<close> is \<^verbatim>\<open>url.Values.Get\<close> and \<^verbatim>\<open>http.Header.Get\<close>: the first
  value stored under the key, or the empty string.
\<close>

record Request =
  Method :: string
  URLPath :: string
  Query :: "(string \<times> string) list"
  Header :: "(string \<times> string) list"
  RemoteAddr :: string

definition Get :: "(string \<times> string) list \<Rightarrow> string \<Rightarrow> string" where
  "Get kvs k = (case map_of kvs k of Some v \<Rightarrow> v | None \<Rightarrow> '''')"

section \<open>Content negotiation (\<^verbatim>\<open>isCLI\<close>)\<close>

definition cliPatterns :: "string list" where
  "cliPatterns = [''curl'', ''wget'', ''httpie'', ''fetch'', ''libfetch'', ''aria2'',
                  ''python-requests'', ''go-http-client'']"

text \<open>The \<^verbatim>\<open>for _, p := range cliPatterns\<close> loop: true at the first pattern found.\<close>

fun any_pattern :: "string \<Rightarrow> string list \<Rightarrow> bool" where
  "any_pattern ua [] = False"
| "any_pattern ua (p # ps) = (if Contains ua p then True else any_pattern ua ps)"

text \<open>
  \<open>True\<close> classifies the request as a command-line client, \<open>False\<close> as a browser. The first
  argument is \<^verbatim>\<open>unicode.ToLower\<close>, which \<^verbatim>\<open>strings.ToLower\<close> applies to a User-Agent with
  non-ASCII bytes.
\<close>

definition isCLI :: "(rune \<Rightarrow> rune) \<Rightarrow> Request \<Rightarrow> bool" where
  "isCLI unicode_ToLower r =
     (let ua = ToLower unicode_ToLower (Get (Header r) ''User-Agent'') in
      if any_pattern ua cliPatterns then True
      else let accept = Get (Header r) ''Accept'' in
        if Contains accept ''text/html'' then False
        else if ua = '''' \<and> \<not> Contains accept ''text/html'' then True
        else False)"

section \<open>The database\<close>

text \<open>
  The rows of the tables of the schema, with the columns the queries return. A nullable
  column is an \<open>option\<close>; an \<^verbatim>\<open>INTEGER\<close> flag is Go's \<^verbatim>\<open>int64\<close>. A time is a count
  of nanoseconds; \<^verbatim>\<open>t.After(u)\<close> is \<open>u < t\<close>. A version number is an \<^verbatim>\<open>int64\<close>, kept as
  an integer in the signed 64-bit range: \<open>wrap64\<close> is the wrap-around of Go's addition.
\<close>

type_synonym Time = int

definition wrap64 :: "int \<Rightarrow> int" where
  "wrap64 x = (x + 2 ^ 63) mod 2 ^ 64 - 2 ^ 63"

record Script =
  ID :: string
  Path :: string
  Name :: string
  Content :: string
  Description :: "string option"
  Tags :: "string option"
  Locked :: "64 word"
  PasswordHash :: "string option"
  DangerLevel :: "64 word option"
  Requires :: "string option"
  Examples :: "string option"
  Favorite :: "64 word"
  CreatedAt :: Time
  UpdatedAt :: Time

record Folder =
  FolderID :: string
  FolderPath :: string
  FolderName :: string
  FolderCreatedAt :: Time

record AuthToken =
  Token :: string
  ScriptID :: string
  ExpiresAt :: Time
  TokenCreatedAt :: Time
  IpAddress :: "string option"
  UserAgent :: "string option"

record AuditLog =
  Action :: string
  EntityType :: string
  EntityID :: "string option"
  EntityPath :: "string option"
  Details :: "string option"
  AuditIpAddress :: "string option"
  AuditUserAgent :: "string option"
  AuditCreatedAt :: Time

record ScriptVersion =
  VersionScriptID :: string
  VersionContent :: string
  Version :: int
  VersionCreatedAt :: Time

record DB =
  scripts :: "Script list"
  folders :: "Folder list"
  auth_tokens :: "AuthToken list"
  audit_log :: "AuditLog list"
  script_versions :: "ScriptVersion list"

text \<open>
  The queries. A \<^verbatim>\<open>:one\<close> query returns \<open>None\<close> where the Go code sees
  \<^verbatim>\<open>sql.ErrNoRows\<close>; an \<^verbatim>\<open>:exec\<close> query returns \<open>None\<close> where a \<^verbatim>\<open>PRIMARY KEY\<close> or
  \<^verbatim>\<open>UNIQUE\<close> constraint of the schema rejects the statement, and the new database
  otherwise. The store has no other failure: the tables are lists in memory.
\<close>

definition GetScript :: "DB \<Rightarrow> string \<Rightarrow> Script option" where
  "GetScript db i = find (\<lambda>s. ID s = i) (scripts db)"

definition GetScriptByPath :: "DB \<Rightarrow> string \<Rightarrow> Script option" where
  "GetScriptByPath db p = find (\<lambda>s. Path s = p) (scripts db)"

definition ListScripts :: "DB \<Rightarrow> Script list" where
  "ListScripts db = sort_key Path (scripts db)"

definition UpdateScript :: "DB \<Rightarrow> Script \<Rightarrow> DB option" where
  "UpdateScript db new =
     (if GetScript db (ID new) \<noteq> None
         \<and> list_ex (\<lambda>s. ID s \<noteq> ID new \<and> Path s = Path new) (scripts db)
      then None
      else Some (db\<lparr>scripts :=
        map (\<lambda>s. if ID s = ID new
                  then s\<lparr>Path := Path new, Name := Name new, Content := Content new,
                         Description := Description new, Tags := Tags new,
                         Locked := Locked new, PasswordHash := PasswordHash new,
                         DangerLevel := DangerLevel new, Requires := Requires new,
                         Examples := Examples new, UpdatedAt := UpdatedAt new\<rparr>
                  else s) (scripts db)\<rparr>))"

definition GetFolderByPath :: "DB \<Rightarrow> string \<Rightarrow> Folder option" where
  "GetFolderByPath db p = find (\<lambda>f. FolderPath f = p) (folders db)"

definition ListFolders :: "DB \<Rightarrow> Folder list" where
  "ListFolders db = sort_key FolderPath (folders db)"

definition CreateFolder :: "DB \<Rightarrow> Folder \<Rightarrow> DB option" where
  "CreateFolder db f =
     (if list_ex (\<lambda>g. FolderID g = FolderID f \<or> FolderPath g = FolderPath f) (folders db)
      then None
      else Some (db\<lparr>folders := folders db @ [f]\<rparr>))"

definition GetAuthToken :: "DB \<Rightarrow> string \<Rightarrow> AuthToken option" where
  "GetAuthToken db t = find (\<lambda>a. Token a = t) (auth_tokens db)"

definition CreateAuthToken :: "DB \<Rightarrow> AuthToken \<Rightarrow> DB option" where
  "CreateAuthToken db a =
     (if list_ex (\<lambda>b. Token b = Token a) (auth_tokens db) then None
      else Some (db\<lparr>auth_tokens := auth_tokens db @ [a]\<rparr>))"

definition CreateAuditLog :: "DB \<Rightarrow> AuditLog \<Rightarrow> DB" where
  "CreateAuditLog db e = db\<lparr>audit_log := audit_log db @ [e]\<rparr>"

definition ListVersions :: "DB \<Rightarrow> string \<Rightarrow> ScriptVersion list" where
  "ListVersions db i =
     rev (sort_key Version (filter (\<lambda>v. VersionScriptID v = i) (script_versions db)))"

definition CreateVersion :: "DB \<Rightarrow> ScriptVersion \<Rightarrow> DB" where
  "CreateVersion db v = db\<lparr>script_versions := script_versions db @ [v]\<rparr>"

section \<open>The server and its surroundings\<close>

record Server =
  Hostname :: string
  AdminToken :: string

text \<open>
  What a handler takes from outside the program during one request:
  \<open>CompareHashAndPassword h p\<close> is true when \<^verbatim>\<open>bcrypt.CompareHashAndPassword\<close> returns
  \<^verbatim>\<open>nil\<close>; \<open>GenerateFromPassword\<close> is \<open>None\<close> when bcrypt fails; \<open>Now k\<close> is the k-th
  reading of \<^verbatim>\<open>time.Now()\<close> and \<open>NewUUID k\<close> the k-th \<^verbatim>\<open>uuid.New().String()\<close> of the
  request, counted from 0.
\<close>

record Ext =
  CompareHashAndPassword :: "string \<Rightarrow> string \<Rightarrow> bool"
  GenerateFromPassword :: "string \<Rightarrow> string option"
  Now :: "nat \<Rightarrow> Time"
  NewUUID :: "nat \<Rightarrow> string"

text \<open>\<^verbatim>\<open>time.Minute\<close>, in nanoseconds.\<close>

definition Minute :: Time where
  "Minute = 60 * 1000000000"

record catalogEntry =
  EntryPath :: string
  EntryName :: string
  EntryDescription :: string
  EntryTags :: string
  EntryLocked :: bool

text \<open>\<^verbatim>\<open>ScriptResponse\<close>, the JSON form of a script in the admin API.\<close>

record ScriptResponse =
  RespID :: string
  RespPath :: string
  RespName :: string
  RespContent :: string
  RespDescription :: string
  RespTags :: string
  RespLocked :: bool
  RespDangerLevel :: "64 word"
  RespRequires :: string
  RespExamples :: string
  RespFavorite :: bool
  RespCreatedAt :: Time
  RespUpdatedAt :: Time

text \<open>
  The tree that \<^verbatim>\<open>json.Encode(root)\<close> writes: the fields of a \<^verbatim>\<open>TreeNode\<close> (id, name,
  path, type, locked) and the encoded children.
\<close>

datatype Tree =
  Tree (tID: string) (tName: string) (tPath: string) (tType: string) (tLocked: bool)
       (tChildren: "Tree list")

text \<open>
  What a handler writes. \<open>HttpError code msg\<close> is \<^verbatim>\<open>http.Error(w, msg, code)\<close>.
  \<open>TextPlain cc body\<close> is a \<^verbatim>\<open>text/plain\<close> reply with the given \<^verbatim>\<open>Cache-Control\<close> (empty
  when the handler sets none). \<open>PasswordPrompt host path\<close> is the reply of
  \<^verbatim>\<open>servePasswordPrompt\<close>: \<^verbatim>\<open>text/plain\<close>, \<^verbatim>\<open>no-store\<close>, the prompt script template
  filled with the host name and the script path. \<open>UnlockJSON token expires\<close> and
  \<open>CatalogJSON entries\<close> are the JSON replies of the unlock and catalog handlers,
  \<open>ScriptJSON code script\<close> the JSON reply of the script API with its status code, and
  \<open>TreeJSON t\<close> the reply of the tree API (\<open>None\<close> if the encoder would not return).
\<close>

datatype Response =
    HttpError nat string
  | TextPlain string string
  | PasswordPrompt string string
  | UnlockJSON string Time
  | CatalogJSON "catalogEntry list"
  | ScriptJSON nat ScriptResponse
  | TreeJSON "Tree option"

section \<open>Serving a script (\<^verbatim>\<open>HandleScript\<close>)\<close>

abbreviation nl :: char where
  "nl \<equiv> CHR 0x0A"

text \<open>The loop \<^verbatim>\<open>for i := 0; i < max; i++\<close> that prints the first lines of the preview.\<close>

function preview_lines :: "string list \<Rightarrow> nat \<Rightarrow> nat \<Rightarrow> string" where
  "preview_lines lines i max' =
     (if i < max' then (lines ! i) @ [nl] @ preview_lines lines (Suc i) max' else [])"
  by pat_completeness auto
termination
  by (relation "measure (\<lambda>(lines, i, max'). max' - i)") auto

declare preview_lines.simps [simp del]

definition preview :: "Script \<Rightarrow> string" where
  "preview script =
     ''# '' @ Name script @ [nl]
     @ (if Description script \<noteq> None \<and> the (Description script) \<noteq> ''''
        then ''# '' @ the (Description script) @ [nl] else [])
     @ (if Tags script \<noteq> None \<and> the (Tags script) \<noteq> ''''
        then ''# Tags: '' @ the (Tags script) @ [nl] else [])
     @ [nl] @ ''# Content:'' @ [nl]
     @ (let lines = Split (Content script) nl;
            max' = (if length lines < 20 then length lines else 20)
        in preview_lines lines 0 max'
           @ (if length lines > max'
              then [nl] @ ''... ('' @ Itoa (length lines - max') @ '' more lines)'' @ [nl]
              else []))"

definition servePasswordPrompt :: "Server \<Rightarrow> string \<Rightarrow> Response" where
  "servePasswordPrompt s scriptPath = PasswordPrompt (Hostname s) scriptPath"

text \<open>
  The token of a request: the query parameter \<^verbatim>\<open>token\<close> and, when that is empty, the
  \<^verbatim>\<open>Authorization\<close> header with the prefix \<^verbatim>\<open>Bearer \<close> trimmed.
\<close>

definition requestToken :: "Request \<Rightarrow> string" where
  "requestToken r =
     (if Get (Query r) ''token'' = ''''
      then TrimPrefix (Get (Header r) ''Authorization'') ''Bearer ''
      else Get (Query r) ''token'')"

definition HandleScript :: "Server \<Rightarrow> Ext \<Rightarrow> DB \<Rightarrow> Request \<Rightarrow> Response" where
  "HandleScript s x db r =
     (let path = (if \<not> HasPrefix (URLPath r) ''/'' then ''/'' @ URLPath r else URLPath r) in
      case GetScriptByPath db path of
        None \<Rightarrow> HttpError 404 ''Script not found''
      | Some script \<Rightarrow>
          if Get (Query r) ''preview'' = ''1'' then TextPlain '''' (preview script)
          else if Locked script \<noteq> 0 then
            (let token = requestToken r
             in if token \<noteq> ''''
                   \<and> (case GetAuthToken db token of
                         None \<Rightarrow> False
                       | Some authToken \<Rightarrow>
                           ScriptID authToken = ID script \<and> Now x 0 < ExpiresAt authToken)
                then TextPlain ''no-store'' (Content script)
                else servePasswordPrompt s path)
          else TextPlain ''max-age=60'' (Content script))"

section \<open>Unlocking (\<^verbatim>\<open>HandleUnlock\<close>)\<close>

text \<open>The request body after \<^verbatim>\<open>json.Decode\<close>; the handler gets \<open>None\<close> when decoding fails.\<close>

record UnlockBody =
  BodyPath :: string
  BodyPassword :: string

definition unlockAudit :: "string \<Rightarrow> Script \<Rightarrow> UnlockBody \<Rightarrow> Request \<Rightarrow> Time \<Rightarrow> AuditLog" where
  "unlockAudit action script req r t =
     \<lparr>Action = action, EntityType = ''script'', EntityID = Some (ID script),
      EntityPath = Some (BodyPath req), Details = None,
      AuditIpAddress = Some (RemoteAddr r),
      AuditUserAgent = Some (Get (Header r) ''User-Agent''), AuditCreatedAt = t\<rparr>"

definition HandleUnlock :: "Ext \<Rightarrow> DB \<Rightarrow> Request \<Rightarrow> UnlockBody option \<Rightarrow> DB \<times> Response" where
  "HandleUnlock x db r body =
     (if Method r \<noteq> ''POST'' then (db, HttpError 405 ''Method not allowed'')
      else
       (case body of
          None \<Rightarrow> (db, HttpError 400 ''Invalid request body'')
        | Some req \<Rightarrow>
           (case GetScriptByPath db (BodyPath req) of
              None \<Rightarrow> (db, HttpError 404 ''Script not found'')
            | Some script \<Rightarrow>
               (if Locked script = 0 then (db, HttpError 400 ''Script is not locked'')
                else
                 (case PasswordHash script of
                    None \<Rightarrow> (db, HttpError 500 ''Script has no password set'')
                  | Some hash \<Rightarrow>
                     (if \<not> CompareHashAndPassword x hash (BodyPassword req)
                      then (CreateAuditLog db
                              (unlockAudit ''UNLOCK_FAILED'' script req r (Now x 0)),
                            HttpError 401 ''Invalid password'')
                      else
                       (let token = NewUUID x 0;
                            expiresAt = Now x 0 + 5 * Minute
                        in (case CreateAuthToken db
                                   \<lparr>Token = token, ScriptID = ID script, ExpiresAt = expiresAt,
                                    TokenCreatedAt = Now x 1, IpAddress = Some (RemoteAddr r),
                                    UserAgent = Some (Get (Header r) ''User-Agent'')\<rparr> of
                              None \<Rightarrow> (db, HttpError 500 ''Failed to create token'')
                            | Some db' \<Rightarrow>
                               (CreateAuditLog db'
                                  (unlockAudit ''UNLOCK_SUCCESS'' script req r (Now x 2)),
                                UnlockJSON token expiresAt)))))))))"

text \<open>A sequence of unlock requests, each with its own surroundings, one after the other.\<close>

fun unlocks :: "DB \<Rightarrow> (Ext \<times> Request \<times> UnlockBody option) list \<Rightarrow> DB" where
  "unlocks db [] = db"
| "unlocks db ((x, r, body) # rest) = unlocks (fst (HandleUnlock x db r body)) rest"

section \<open>The catalog (\<^verbatim>\<open>HandleCatalog\<close>)\<close>

definition entryOf :: "Script \<Rightarrow> catalogEntry" where
  "entryOf s =
     (let e = \<lparr>EntryPath = Path s, EntryName = Name s, EntryDescription = '''',
               EntryTags = '''', EntryLocked = (Locked s \<noteq> 0)\<rparr>;
          e = (if Description s \<noteq> None then e\<lparr>EntryDescription := the (Description s)\<rparr> else e);
          e = (if Tags s \<noteq> None then e\<lparr>EntryTags := the (Tags s)\<rparr> else e)
      in e)"

text \<open>The loop \<^verbatim>\<open>for i, s := range scripts\<close>, which fills \<^verbatim>\<open>entries[i]\<close>.\<close>

fun fill_entries :: "Script list \<Rightarrow> nat \<Rightarrow> catalogEntry list \<Rightarrow> catalogEntry list" where
  "fill_entries [] i entries = entries"
| "fill_entries (s # ss) i entries = fill_entries ss (Suc i) (entries[i := entryOf s])"

definition zeroEntry :: catalogEntry where
  "zeroEntry = \<lparr>EntryPath = '''', EntryName = '''', EntryDescription = '''',
                EntryTags = '''', EntryLocked = False\<rparr>"

definition HandleCatalog :: "DB \<Rightarrow> Response" where
  "HandleCatalog db =
     (let scripts = ListScripts db;
          entries = replicate (length scripts) zeroEntry
      in CatalogJSON (fill_entries scripts 0 entries))"

section \<open>The admin gate (\<^verbatim>\<open>adminOnly\<close>)\<close>

text \<open>
  The wrapper either answers 401 itself or calls the wrapped handler; \<open>Inl\<close> is the
  wrapper's own reply, \<open>Inr\<close> what the wrapped handler returns.
\<close>

definition adminOnly :: "Server \<Rightarrow> (Request \<Rightarrow> 'a) \<Rightarrow> Request \<Rightarrow> Response + 'a" where
  "adminOnly s next r =
     (let token = Get (Header r) ''X-Admin-Token'';
          token = (if token = '''' then TrimPrefix (Get (Header r) ''Authorization'') ''Bearer ''
                   else token)
      in if AdminToken s \<noteq> '''' \<and> token \<noteq> AdminToken s
         then Inl (HttpError 401 ''Unauthorized'')
         else Inr (next r))"

section \<open>Folder synthesis (\<^verbatim>\<open>ensureFolders\<close>)\<close>

text \<open>
  The loop \<^verbatim>\<open>for i := 1; i < len(parts); i++\<close>. \<open>k\<close> counts the identifiers and clock
  readings the request has drawn so far. The error of \<^verbatim>\<open>CreateFolder\<close> is dropped, as in
  the source.
\<close>

function ensureFolders_loop :: "Ext \<Rightarrow> string list \<Rightarrow> nat \<Rightarrow> nat \<Rightarrow> DB \<Rightarrow> nat \<times> DB" where
  "ensureFolders_loop x parts i k db =
     (if i < length parts then
        (let folderPath = ''/'' @ Join (take i parts) CHR ''/'';
             folderName = parts ! (i - 1)
         in case (case GetFolderByPath db folderPath of
                    Some f \<Rightarrow> (k, db)
                  | None \<Rightarrow>
                      (Suc k,
                       case CreateFolder db
                              \<lparr>FolderID = NewUUID x k, FolderPath = folderPath,
                               FolderName = folderName, FolderCreatedAt = Now x k\<rparr> of
                         None \<Rightarrow> db
                       | Some db' \<Rightarrow> db')) of
              (k', db') \<Rightarrow> ensureFolders_loop x parts (Suc i) k' db')
      else (k, db))"
  by pat_completeness auto
termination
  by (relation "measure (\<lambda>(x, parts, i, k, db). length parts - i)") auto

declare ensureFolders_loop.simps [simp del]

definition ensureFolders :: "Ext \<Rightarrow> nat \<Rightarrow> DB \<Rightarrow> string \<Rightarrow> nat \<times> DB" where
  "ensureFolders x k db scriptPath =
     (let parts = Split (TrimPrefix scriptPath ''/'') CHR ''/''
      in if length parts \<le> 1 then (k, db) else ensureFolders_loop x parts 1 k db)"

section \<open>The script API (\<^verbatim>\<open>APICreateScript\<close>, \<^verbatim>\<open>APIUpdateScript\<close>)\<close>

text \<open>\<^verbatim>\<open>filepath.Base\<close> with the separator \<^verbatim>\<open>/\<close>, which is \<^verbatim>\<open>extractName\<close>.\<close>

definition extractName :: "string \<Rightarrow> string" where
  "extractName path =
     (if path = '''' then ''.''
      else let p = rev (dropWhile (\<lambda>c. c = CHR ''/'') (rev path));
               p = rev (takeWhile (\<lambda>c. c \<noteq> CHR ''/'') (rev p))
           in if p = '''' then ''/'' else p)"

definition zeroScript :: Script where
  "zeroScript = \<lparr>ID = '''', Path = '''', Name = '''', Content = '''', Description = None,
     Tags = None, Locked = 0, PasswordHash = None, DangerLevel = None, Requires = None,
     Examples = None, Favorite = 0, CreatedAt = 0, UpdatedAt = 0\<rparr>"

definition orEmpty :: "string option \<Rightarrow> string" where
  "orEmpty v = (case v of None \<Rightarrow> '''' | Some t \<Rightarrow> t)"

definition scriptToResponse :: "Script \<Rightarrow> ScriptResponse" where
  "scriptToResponse s =
     \<lparr>RespID = ID s, RespPath = Path s, RespName = Name s, RespContent = Content s,
      RespDescription = orEmpty (Description s), RespTags = orEmpty (Tags s),
      RespLocked = (Locked s \<noteq> 0),
      RespDangerLevel = (case DangerLevel s of None \<Rightarrow> 0 | Some d \<Rightarrow> d),
      RespRequires = orEmpty (Requires s), RespExamples = orEmpty (Examples s),
      RespFavorite = (Favorite s \<noteq> 0),
      RespCreatedAt = CreatedAt s, RespUpdatedAt = UpdatedAt s\<rparr>"

text \<open>\<^verbatim>\<open>CreateScriptRequest\<close> and \<^verbatim>\<open>UpdateScriptRequest\<close> have the same fields.\<close>

record ScriptRequest =
  ReqPath :: string
  ReqContent :: string
  ReqDescription :: string
  ReqTags :: string
  ReqLocked :: bool
  ReqPassword :: string
  ReqDangerLevel :: "64 word"
  ReqRequires :: string
  ReqExamples :: string

definition CreateScript :: "DB \<Rightarrow> Script \<Rightarrow> DB option" where
  "CreateScript db s =
     (if list_ex (\<lambda>t. ID t = ID s \<or> Path t = Path s) (scripts db) then None
      else Some (db\<lparr>scripts := scripts db @ [s]\<rparr>))"

text \<open>The text of the driver's error for a rejected statement.\<close>

definition uniqueError :: string where
  "uniqueError = ''UNIQUE constraint failed''"

definition scriptAudit :: "string \<Rightarrow> string \<Rightarrow> string \<Rightarrow> Time \<Rightarrow> AuditLog" where
  "scriptAudit action i path t =
     \<lparr>Action = action, EntityType = ''script'', EntityID = Some i, EntityPath = Some path,
      Details = None, AuditIpAddress = None, AuditUserAgent = None, AuditCreatedAt = t\<rparr>"

definition reread :: "DB \<Rightarrow> string \<Rightarrow> ScriptResponse" where
  "reread db i = scriptToResponse (case GetScript db i of None \<Rightarrow> zeroScript | Some s \<Rightarrow> s)"

definition APICreateScript :: "Ext \<Rightarrow> DB \<Rightarrow> ScriptRequest option \<Rightarrow> DB \<times> Response" where
  "APICreateScript x db body =
     (case body of
        None \<Rightarrow> (db, HttpError 400 ''Invalid request body'')
      | Some req \<Rightarrow>
         (case validatePath (ReqPath req) of
            Some err \<Rightarrow> (db, HttpError 400 err)
          | None \<Rightarrow>
             (if ReqLocked req \<and> ReqPassword req \<noteq> ''''
                 \<and> GenerateFromPassword x (ReqPassword req) = None
              then (db, HttpError 500 ''Failed to hash password'')
              else
               (let passwordHash =
                      (if ReqLocked req \<and> ReqPassword req \<noteq> ''''
                       then GenerateFromPassword x (ReqPassword req) else None);
                    now = Now x 0;
                    i = NewUUID x 0;
                    name = extractName (ReqPath req);
                    lockedInt = (if ReqLocked req then 1 else 0);
                    db1 = snd (ensureFolders x 1 db (ReqPath req))
                in (case CreateScript db1
                           \<lparr>ID = i, Path = ReqPath req, Name = name, Content = ReqContent req,
                            Description = Some (ReqDescription req), Tags = Some (ReqTags req),
                            Locked = lockedInt, PasswordHash = passwordHash,
                            DangerLevel = Some (ReqDangerLevel req),
                            Requires = Some (ReqRequires req),
                            Examples = Some (ReqExamples req), Favorite = 0,
                            CreatedAt = now, UpdatedAt = now\<rparr> of
                      None \<Rightarrow> (db1, HttpError 409 ''Script with this path already exists'')
                    | Some db2 \<Rightarrow>
                       (let db3 = CreateVersion db2
                                    \<lparr>VersionScriptID = i, VersionContent = ReqContent req,
                                     Version = 1, VersionCreatedAt = now\<rparr>;
                            db4 = CreateAuditLog db3 (scriptAudit ''CREATE'' i (ReqPath req) now)
                        in (db4, ScriptJSON 201 (reread db4 i))))))))"

definition APIUpdateScript :: "Ext \<Rightarrow> DB \<Rightarrow> string \<Rightarrow> ScriptRequest option \<Rightarrow> DB \<times> Response" where
  "APIUpdateScript x db i body =
     (case body of
        None \<Rightarrow> (db, HttpError 400 ''Invalid request body'')
      | Some req \<Rightarrow>
         (case validatePath (ReqPath req) of
            Some err \<Rightarrow> (db, HttpError 400 err)
          | None \<Rightarrow>
             (case GetScript db i of
                None \<Rightarrow> (db, HttpError 404 ''Script not found'')
              | Some existing \<Rightarrow>
                 (if ReqLocked req \<and> ReqPassword req \<noteq> ''''
                     \<and> GenerateFromPassword x (ReqPassword req) = None
                  then (db, HttpError 500 ''Failed to hash password'')
                  else
                   (let passwordHash =
                          (if ReqLocked req
                           then (if ReqPassword req \<noteq> ''''
                                 then GenerateFromPassword x (ReqPassword req)
                                 else PasswordHash existing)
                           else None);
                        now = Now x 0;
                        name = extractName (ReqPath req);
                        lockedInt = (if ReqLocked req then 1 else 0)
                    in (case UpdateScript db
                               (existing\<lparr>Path := ReqPath req, Name := name,
                                  Content := ReqContent req,
                                  Description := Some (ReqDescription req),
                                  Tags := Some (ReqTags req), Locked := lockedInt,
                                  PasswordHash := passwordHash,
                                  DangerLevel := Some (ReqDangerLevel req),
                                  Requires := Some (ReqRequires req),
                                  Examples := Some (ReqExamples req),
                                  UpdatedAt := now\<rparr>) of
                          None \<Rightarrow> (db, HttpError 500 (''Failed to update script: '' @ uniqueError))
                        | Some db1 \<Rightarrow>
                           (let db2 =
                                  (if Content existing \<noteq> ReqContent req
                                   then (let versions = ListVersions db1 i;
                                             newVersion = (if length versions > 0
                                                           then wrap64 (Version (versions ! 0) + 1)
                                                           else 1)
                                         in CreateVersion db1
                                              \<lparr>VersionScriptID = i,
                                               VersionContent = ReqContent req,
                                               Version = newVersion,
                                               VersionCreatedAt = now\<rparr>)
                                   else db1);
                                db3 = CreateAuditLog db2
                                        (scriptAudit ''UPDATE'' i (ReqPath req) now)
                            in (db3, ScriptJSON 200 (reread db3 i)))))))))"

section \<open>The tree API (\<^verbatim>\<open>APIGetTree\<close>)\<close>

definition getParentPath :: "string \<Rightarrow> string" where
  "getParentPath path =
     (if path = ''/'' then ''/''
      else let parts = Split (TrimPrefix path ''/'') CHR ''/''
           in if length parts \<le> 1 then ''/''
              else ''/'' @ Join (take (length parts - 1) parts) CHR ''/'')"

text \<open>
  A \<^verbatim>\<open>TreeNode\<close> on the heap. The source links nodes by pointer
  (\<^verbatim>\<open>Children []*TreeNode\<close>) and appends to a parent's children after the parent has
  itself been linked, so the nodes live in a store: a list of nodes, the address of a node
  being its index. \<open>Children\<close> holds addresses. The root is allocated first, at address 0.
\<close>

record TreeNode =
  NodeID :: string
  NodeName :: string
  NodePath :: string
  NodeType :: string
  NodeLocked :: bool
  Children :: "nat list"

type_synonym Heap = "TreeNode list"

text \<open>
  \<^verbatim>\<open>nodeMap\<close>, a Go map from path to node pointer, is an association list with at most
  one entry for a key; \<^verbatim>\<open>nodeMap[k] = v\<close> replaces the entry of \<open>k\<close> or adds one.
\<close>

type_synonym NodeMap = "(string \<times> nat) list"

fun put :: "string \<Rightarrow> nat \<Rightarrow> NodeMap \<Rightarrow> NodeMap" where
  "put k v [] = [(k, v)]"
| "put k v ((k', v') # m) = (if k' = k then (k, v) # m else (k', v') # put k v m)"

definition rootNode :: TreeNode where
  "rootNode = \<lparr>NodeID = ''root'', NodeName = ''/'', NodePath = ''/'', NodeType = ''folder'',
               NodeLocked = False, Children = []\<rparr>"

definition folderNode :: "Folder \<Rightarrow> TreeNode" where
  "folderNode f =
     \<lparr>NodeID = FolderID f, NodeName = FolderName f, NodePath = FolderPath f,
      NodeType = ''folder'', NodeLocked = False, Children = []\<rparr>"

definition scriptNode :: "Script \<Rightarrow> TreeNode" where
  "scriptNode sc =
     \<lparr>NodeID = ID sc, NodeName = Name sc, NodePath = Path sc,
      NodeType = ''script'', NodeLocked = (Locked sc \<noteq> 0), Children = []\<rparr>"

text \<open>The two passes that allocate a node for each folder and each script and register it.\<close>

fun add_folders :: "Folder list \<Rightarrow> Heap \<times> NodeMap \<Rightarrow> Heap \<times> NodeMap" where
  "add_folders [] (h, m) = (h, m)"
| "add_folders (f # fs) (h, m) =
     add_folders fs (h @ [folderNode f], put (FolderPath f) (length h) m)"

fun add_scripts :: "Script list \<Rightarrow> Heap \<times> NodeMap \<Rightarrow> Heap \<times> NodeMap" where
  "add_scripts [] (h, m) = (h, m)"
| "add_scripts (sc # scs) (h, m) =
     add_scripts scs (h @ [scriptNode sc], put (Path sc) (length h) m)"

text \<open>\<^verbatim>\<open>parent.Children = append(parent.Children, node)\<close> through the pointer \<open>parent\<close>.\<close>

definition append_child :: "nat \<Rightarrow> nat \<Rightarrow> Heap \<Rightarrow> Heap" where
  "append_child parent node h =
     h[parent := (h ! parent)\<lparr>Children := Children (h ! parent) @ [node]\<rparr>]"

text \<open>
  The loop \<^verbatim>\<open>for path, node := range nodeMap\<close>. Go leaves the order in which a map is
  ranged over open, so the loop runs over \<open>order\<close>, a list of the map's entries in the
  order of the visit.
\<close>

fun build_hierarchy :: "NodeMap \<Rightarrow> (string \<times> nat) list \<Rightarrow> Heap \<Rightarrow> Heap" where
  "build_hierarchy nodeMap [] h = h"
| "build_hierarchy nodeMap ((path, node) # rest) h =
     (if path = ''/'' then build_hierarchy nodeMap rest h
      else case map_of nodeMap (getParentPath path) of
             Some parent \<Rightarrow> build_hierarchy nodeMap rest (append_child parent node h)
           | None \<Rightarrow> build_hierarchy nodeMap rest (append_child 0 node h))"

text \<open>\<open>order\<close> lists every entry of the map once.\<close>

definition ranges_over :: "(string \<times> nat) list \<Rightarrow> NodeMap \<Rightarrow> bool" where
  "ranges_over order nodeMap = (distinct order \<and> set order = set nodeMap)"

definition tree_nodeMap :: "Script list \<Rightarrow> Folder list \<Rightarrow> NodeMap" where
  "tree_nodeMap scs fs = snd (add_scripts scs (add_folders fs ([rootNode], [(''/'', 0)])))"

text \<open>The store when the passes of \<^verbatim>\<open>APIGetTree\<close> are done.\<close>

definition buildTree :: "Script list \<Rightarrow> Folder list \<Rightarrow> (string \<times> nat) list \<Rightarrow> Heap" where
  "buildTree scs fs order =
     (case add_scripts scs (add_folders fs ([rootNode], [(''/'', 0)])) of
        (h, nodeMap) \<Rightarrow> build_hierarchy nodeMap order h)"

text \<open>
  \<^verbatim>\<open>json.Encode\<close> follows the pointers from a node down. \<open>encode n h a\<close> encodes the node
  at address \<open>a\<close> to a depth of at most \<open>n\<close>; it is \<open>None\<close> when the nodes go deeper.
  \<open>APIGetTree\<close> gives it the number of nodes as depth, which a store without a cycle
  never exceeds.
\<close>

fun encode :: "nat \<Rightarrow> Heap \<Rightarrow> nat \<Rightarrow> Tree option" where
  "encode 0 h a = None"
| "encode (Suc n) h a =
     (case those (map (encode n h) (Children (h ! a))) of
        None \<Rightarrow> None
      | Some cs \<Rightarrow>
          Some (Tree (NodeID (h ! a)) (NodeName (h ! a)) (NodePath (h ! a)) (NodeType (h ! a))
                  (NodeLocked (h ! a)) cs))"

definition APIGetTree :: "DB \<Rightarrow> (string \<times> nat) list \<Rightarrow> Response" where
  "APIGetTree db order =
     (let h = buildTree (ListScripts db) (ListFolders db) order
      in TreeJSON (encode (length h) h 0))"

section \<open>Notions used in the statements\<close>

text \<open>
  Two scripts are alike to the public when they differ at most in content and password
  hash.
\<close>

definition same_public :: "Script \<Rightarrow> Script \<Rightarrow> bool" where
  "same_public a b = (b = a\<lparr>Content := Content b, PasswordHash := PasswordHash b\<rparr>)"

text \<open>
  The folder path the loop of \<open>ensureFolders\<close> looks at in round \<open>i\<close>: the first \<open>i\<close>
  segments of the path, joined.
\<close>

definition prefixPath :: "string list \<Rightarrow> nat \<Rightarrow> string" where
  "prefixPath parts i = ''/'' @ Join (take i parts) CHR ''/''"

text \<open>
  The address the hierarchy loop appends a node of path \<open>p\<close> to: the node registered in
  \<open>nodeMap\<close> at the parent path, and the root (address 0) when there is none.
\<close>

definition attach_target :: "NodeMap \<Rightarrow> string \<Rightarrow> nat" where
  "attach_target nodeMap p =
     (case map_of nodeMap (getParentPath p) of Some parent \<Rightarrow> parent | None \<Rightarrow> 0)"

text \<open>
  Both allocation passes are instances of one: allocate each node of a list of
  (path, node) pairs at the end of the store and register its address under the path.
\<close>

fun add_nodes :: "(string \<times> TreeNode) list \<Rightarrow> Heap \<times> NodeMap \<Rightarrow> Heap \<times> NodeMap" where
  "add_nodes [] (h, m) = (h, m)"
| "add_nodes ((p, node) # rest) (h, m) = add_nodes rest (h @ [node], put p (length h) m)"

definition tree_nodes :: "Script list \<Rightarrow> Folder list \<Rightarrow> (string \<times> TreeNode) list" where
  "tree_nodes scs fs =
     map (\<lambda>f. (FolderPath f, folderNode f)) fs @ map (\<lambda>sc. (Path sc, scriptNode sc)) scs"

text \<open>
  The paths of the nodes in the order of their allocation: the root, the folders, the
  scripts. The node of address \<open>a\<close> has the path \<open>tree_paths scs fs ! a\<close>.
\<close>

definition tree_paths :: "Script list \<Rightarrow> Folder list \<Rightarrow> string list" where
  "tree_paths scs fs = ''/'' # map FolderPath fs @ map Path scs"

text \<open>
  The proper ancestor prefixes of a path, outermost first: the folder paths that the loop
  of \<open>ensureFolders\<close> looks at.
\<close>

definition ancestors :: "string \<Rightarrow> string list" where
  "ancestors p =
     (let parts = Split (TrimPrefix p ''/'') CHR ''/''
      in map (prefixPath parts) [1..<length parts])"

text \<open>Reading the reply: \<open>is_node n t\<close> says that \<open>t\<close> carries the fields of the node \<open>n\<close>;
  \<open>tnodes t\<close> lists every node of the tree \<open>t\<close>; \<open>walk t ps\<close> goes down from \<open>t\<close>, at each
  step into the one child that has the next path of \<open>ps\<close>, and fails when there is no such
  child or more than one.\<close>

definition is_node :: "TreeNode \<Rightarrow> Tree \<Rightarrow> bool" where
  "is_node n t =
     (tID t = NodeID n \<and> tName t = NodeName n \<and> tPath t = NodePath n \<and> tType t = NodeType n
      \<and> tLocked t = NodeLocked n)"

fun tnodes :: "Tree \<Rightarrow> Tree list" where
  "tnodes (Tree i n p ty l cs) = Tree i n p ty l cs # concat (map tnodes cs)"

fun walk :: "Tree \<Rightarrow> string list \<Rightarrow> Tree option" where
  "walk t [] = Some t"
| "walk t (p # ps) =
     (case filter (\<lambda>c. tPath c = p) (tChildren t) of
        [c] \<Rightarrow> walk c ps
      | _ \<Rightarrow> None)"

text \<open>Used in the proofs: the number of segments of a path, and a list of addresses in
  which each is a child of the one before.\<close>

definition nparts :: "string \<Rightarrow> nat" where
  "nparts p = length (Split (TrimPrefix p ''/'') CHR ''/'')"

fun chain :: "Heap \<Rightarrow> nat list \<Rightarrow> bool" where
  "chain h [] = True"
| "chain h [a] = True"
| "chain h (a # b # cs) = (b \<in> set (Children (h ! a)) \<and> chain h (b # cs))"

definition level :: "string list \<Rightarrow> nat \<Rightarrow> nat" where
  "level ps a = (if a = 0 then 0 else nparts (ps ! a))"

definition node_parent :: "Script list \<Rightarrow> Folder list \<Rightarrow> nat \<Rightarrow> nat" where
  "node_parent scs fs b = attach_target (tree_nodeMap scs fs) (tree_paths scs fs ! b)"

section \<open>Sample data\<close>

text \<open>A database with one locked script, an unlock request, and surroundings in which
  the password \<^verbatim>\<open>open sesame\<close> matches the stored hash.\<close>

definition demo_script :: Script where
  "demo_script = \<lparr>ID = ''s1'', Path = ''/private/secret.sh'', Name = ''secret.sh'',
      Content = ''echo one'', Description = Some ''a secret'', Tags = None, Locked = 1,
      PasswordHash = Some ''$2a$10$hash'', DangerLevel = Some 0, Requires = None,
      Examples = None, Favorite = 0, CreatedAt = 0, UpdatedAt = 0\<rparr>"

definition demo_db :: DB where
  "demo_db = \<lparr>scripts = [demo_script], folders = [], auth_tokens = [], audit_log = [],
               script_versions = []\<rparr>"

definition demo_unlock :: Request where
  "demo_unlock = \<lparr>Method = ''POST'', URLPath = ''/_auth/unlock'', Query = [],
                  Header = [(''User-Agent'', ''curl/8.0'')], RemoteAddr = ''10.0.0.1:4000''\<rparr>"

definition demo_ext :: Ext where
  "demo_ext = \<lparr>CompareHashAndPassword = (\<lambda>h p. h = ''$2a$10$hash'' \<and> p = ''open sesame''),
               GenerateFromPassword = (\<lambda>p. None), Now = (\<lambda>k. 1000 + int k),
               NewUUID = (\<lambda>k. ''uuid-0'')\<rparr>"

text \<open>A database with the folder \<^verbatim>\<open>/a\<close>, and surroundings whose identifiers are
  \<^verbatim>\<open>u\<close>, \<^verbatim>\<open>uu\<close>, \<^verbatim>\<open>uuu\<close> and so on.\<close>

definition demo_folders_db :: DB where
  "demo_folders_db = \<lparr>scripts = [],
     folders = [\<lparr>FolderID = ''f-a'', FolderPath = ''/a'', FolderName = ''a'', FolderCreatedAt = 5\<rparr>],
     auth_tokens = [], audit_log = [], script_versions = []\<rparr>"

definition demo_uuids :: Ext where
  "demo_uuids = \<lparr>CompareHashAndPassword = (\<lambda>h p. False), GenerateFromPassword = (\<lambda>p. None),
                 Now = (\<lambda>k. 1000 + int k), NewUUID = (\<lambda>k. replicate (Suc k) CHR ''u'')\<rparr>"

text \<open>A database with the script \<^verbatim>\<open>/x.sh\<close> and no folder, and a request that moves the
  script to \<^verbatim>\<open>/a/b/c.sh\<close>.\<close>

definition move_db :: DB where
  "move_db = \<lparr>scripts =
       [\<lparr>ID = ''s1'', Path = ''/x.sh'', Name = ''x.sh'', Content = ''echo hi'',
         Description = Some '''', Tags = Some '''', Locked = 0, PasswordHash = None,
         DangerLevel = Some 0, Requires = Some '''', Examples = Some '''', Favorite = 0,
         CreatedAt = 1, UpdatedAt = 1\<rparr>],
     folders = [], auth_tokens = [], audit_log = [], script_versions = []\<rparr>"

definition move_request :: ScriptRequest where
  "move_request = \<lparr>ReqPath = ''/a/b/c.sh'', ReqContent = ''echo hi'', ReqDescription = '''',
     ReqTags = '''', ReqLocked = False, ReqPassword = '''', ReqDangerLevel = 0,
     ReqRequires = '''', ReqExamples = ''''\<rparr>"

text \<open>The folders \<^verbatim>\<open>/a\<close>, \<^verbatim>\<open>/a/b\<close> and the scripts \<^verbatim>\<open>/a/b/c.sh\<close>, \<^verbatim>\<open>/x.sh\<close>.\<close>

definition tree_folders :: "Folder list" where
  "tree_folders =
     [\<lparr>FolderID = ''fa'', FolderPath = ''/a'', FolderName = ''a'', FolderCreatedAt = 1\<rparr>,
      \<lparr>FolderID = ''fb'', FolderPath = ''/a/b'', FolderName = ''b'', FolderCreatedAt = 2\<rparr>]"

definition tree_script :: "string \<Rightarrow> string \<Rightarrow> string \<Rightarrow> Script" where
  "tree_script i p n =
     \<lparr>ID = i, Path = p, Name = n, Content = ''echo hi'', Description = None, Tags = None,
      Locked = 0, PasswordHash = None, DangerLevel = None, Requires = None, Examples = None,
      Favorite = 0, CreatedAt = 3, UpdatedAt = 3\<rparr>"

definition tree_scripts :: "Script list" where
  "tree_scripts = [tree_script ''s1'' ''/a/b/c.sh'' ''c.sh'', tree_script ''s2'' ''/x.sh'' ''x.sh'']"

definition tree_db :: DB where
  "tree_db = \<lparr>scripts = tree_scripts, folders = tree_folders, auth_tokens = [],
               audit_log = [], script_versions = []\<rparr>"

text \<open>
  The entries of \<^verbatim>\<open>unicode.ToLower\<close> that the examples use: the ASCII letters, U+0130 and
  U+212A; and a User-Agent that spells \<^verbatim>\<open>ARIA2/1.36\<close> with U+0130 (bytes C4 B0) for the
  letter I.
\<close>

definition unicode_sample :: "rune \<Rightarrow> rune" where
  "unicode_sample r =
     (if 0x41 \<le> r \<and> r \<le> 0x5A then r + 0x20
      else if r = 0x130 then 0x69
      else if r = 0x212A then 0x6B
      else r)"

definition dotted_agent :: string where
  "dotted_agent = [CHR ''A'', CHR ''R'', CHR 0xC4, CHR 0xB0, CHR ''A'', CHR ''2'', CHR ''/'',
                   CHR ''1'', CHR ''.'', CHR ''3'', CHR ''6'']"

section \<open>Facts about the string functions\<close>

lemma HasPrefix_iff: "HasPrefix s pre \<longleftrightarrow> (\<exists>post. s = pre @ post)"
  unfolding HasPrefix_def by (metis append_eq_conv_conj)

lemma HasSuffix_iff: "HasSuffix s suf \<longleftrightarrow> (\<exists>stem. s = stem @ suf)"
proof
  assume "HasSuffix s suf"
  then have "s = take (length s - length suf) s @ suf"
    unfolding HasSuffix_def by (metis append_take_drop_id)
  then show "\<exists>stem. s = stem @ suf" ..
next
  assume "\<exists>stem. s = stem @ suf"
  then show "HasSuffix s suf" unfolding HasSuffix_def by auto
qed

lemma TrimPrefix_cases:
  "TrimPrefix s pre = (if (\<exists>post. s = pre @ post) then drop (length pre) s else s)"
  unfolding TrimPrefix_def HasPrefix_iff by simp

lemma Contains_iff: "Contains s sub \<longleftrightarrow> (\<exists>pre post. s = pre @ sub @ post)"
proof (induction s)
  case Nil
  then show ?case by auto
next
  case (Cons c cs)
  show ?case
  proof
    assume "Contains (c # cs) sub"
    then consider "HasPrefix (c # cs) sub" | "Contains cs sub" by auto
    then show "\<exists>pre post. c # cs = pre @ sub @ post"
    proof cases
      case 1
      then obtain post where "c # cs = sub @ post" using HasPrefix_iff by blast
      then have "c # cs = [] @ sub @ post" by simp
      then show ?thesis by blast
    next
      case 2
      then obtain pre post where "cs = pre @ sub @ post" using Cons.IH by blast
      then have "c # cs = (c # pre) @ sub @ post" by simp
      then show ?thesis by blast
    qed
  next
    assume "\<exists>pre post. c # cs = pre @ sub @ post"
    then obtain pre post where e: "c # cs = pre @ sub @ post" by blast
    show "Contains (c # cs) sub"
    proof (cases pre)
      case Nil
      then have "c # cs = sub @ post" using e by simp
      then have "HasPrefix (c # cs) sub" using HasPrefix_iff by blast
      then show ?thesis by simp
    next
      case (Cons a pre')
      then have "cs = pre' @ sub @ post" using e by simp
      then show ?thesis using Cons.IH by auto
    qed
  qed
qed

lemma any_pattern_iff: "any_pattern ua ps \<longleftrightarrow> (\<exists>p \<in> set ps. Contains ua p)"
  by (induction ps) auto

lemma MatchString_iff: "validPath_MatchString s \<longleftrightarrow> s \<noteq> [] \<and> (\<forall>c \<in> set s. valid_char c)"
  by (induction s rule: validPath_MatchString.induct) auto

text \<open>Lower-casing keeps a non-empty string non-empty: every rune is written as at least
  one byte.\<close>

lemma EncodeRune_not_empty: "EncodeRune r \<noteq> []"
  by (simp add: EncodeRune_def)

lemma runes_empty: "runes s = [] \<longleftrightarrow> s = []"
  by (cases s) simp_all

lemma ToLower_empty: "ToLower f s = [] \<longleftrightarrow> s = []"
  by (simp add: ToLower_def Map_runes_def runes_empty EncodeRune_not_empty)

lemma Split_not_empty: "Split s c \<noteq> []"
  by (induction s) auto

lemma Join_Cons_Cons: "Join ((x # a) # rest) c = x # Join (a # rest) c"
  by (cases rest) auto

text \<open>Splitting and joining on the same separator gives the string back, and no field
  holds the separator.\<close>

lemma Join_Split: "Join (Split s c) c = s"
proof (induction s)
  case Nil
  then show ?case by simp
next
  case (Cons x s)
  obtain a rest where r: "Split s c = a # rest"
    using Split_not_empty [of s c] by (cases "Split s c") auto
  show ?case
  proof (cases "x = c")
    case True
    then show ?thesis using Cons r by simp
  next
    case False
    then show ?thesis using Cons r by (simp add: Join_Cons_Cons)
  qed
qed

lemma Split_fields: "f \<in> set (Split s c) \<Longrightarrow> c \<notin> set f"
proof (induction s arbitrary: f)
  case Nil
  then show ?case by simp
next
  case (Cons x s)
  obtain a rest where r: "Split s c = a # rest"
    using Split_not_empty [of s c] by (cases "Split s c") auto
  show ?case
  proof (cases "x = c")
    case True
    then show ?thesis using Cons by auto
  next
    case False
    then show ?thesis using Cons r by auto
  qed
qed

section \<open>Content negotiation\<close>

text \<open>
  Claim C7. \<open>isCLI\<close> classifies a request as a command-line client when the lower-cased
  User-Agent contains one of the fixed signatures, whatever the Accept header says;
  otherwise as a browser when Accept contains \<^verbatim>\<open>text/html\<close>; otherwise as a command-line
  client when the User-Agent is empty; and as a browser in every remaining case. In
  particular a signature in the User-Agent wins over an Accept header asking for HTML.
  The lower-cased User-Agent is the result of \<^verbatim>\<open>strings.ToLower\<close>, on every byte string
  and for every case table \<open>f\<close> of package \<^verbatim>\<open>unicode\<close>.
\<close>

theorem isCLI_classify:
  "isCLI f r =
     (if (\<exists>p \<in> set cliPatterns. \<exists>pre post.
            ToLower f (Get (Header r) ''User-Agent'') = pre @ p @ post) then True
      else if (\<exists>pre post. Get (Header r) ''Accept'' = pre @ ''text/html'' @ post) then False
      else if Get (Header r) ''User-Agent'' = '''' then True
      else False)
   \<and> ((\<exists>p \<in> set cliPatterns. \<exists>pre post.
            ToLower f (Get (Header r) ''User-Agent'') = pre @ p @ post) \<longrightarrow> isCLI f r)"
  unfolding isCLI_def Let_def any_pattern_iff Contains_iff ToLower_empty by simp

text \<open>
  Two requests that ask for HTML and are classified as command-line clients: one whose
  User-Agent is \<^verbatim>\<open>Wget/1.21\<close>, and one whose User-Agent is \<^verbatim>\<open>AR\<close>, U+0130, \<^verbatim>\<open>A2/1.36\<close>, which
  \<^verbatim>\<open>strings.ToLower\<close> turns into \<^verbatim>\<open>aria2/1.36\<close>.
\<close>

theorem isCLI_classify_witness:
  "isCLI unicode_sample
         \<lparr>Method = ''GET'', URLPath = ''/'', Query = [],
          Header = [(''User-Agent'', ''Wget/1.21''), (''Accept'', ''text/html'')],
          RemoteAddr = ''10.0.0.1:4000''\<rparr>
   \<and> isCLI unicode_sample
         \<lparr>Method = ''GET'', URLPath = ''/'', Query = [],
          Header = [(''User-Agent'', dotted_agent), (''Accept'', ''text/html'')],
          RemoteAddr = ''10.0.0.1:4000''\<rparr>"
proof
  let ?r = "\<lparr>Method = ''GET'', URLPath = ''/'', Query = [],
          Header = [(''User-Agent'', ''Wget/1.21''), (''Accept'', ''text/html'')],
          RemoteAddr = ''10.0.0.1:4000''\<rparr>"
  have "ToLower unicode_sample (Get (Header ?r) ''User-Agent'') = [] @ ''wget'' @ ''/1.21''"
    by (simp add: Get_def ToLower_def lower_byte_def)
  moreover have "''wget'' \<in> set cliPatterns" by (simp add: cliPatterns_def)
  ultimately show "isCLI unicode_sample ?r" using isCLI_classify [of unicode_sample ?r] by blast
next
  let ?r = "\<lparr>Method = ''GET'', URLPath = ''/'', Query = [],
          Header = [(''User-Agent'', dotted_agent), (''Accept'', ''text/html'')],
          RemoteAddr = ''10.0.0.1:4000''\<rparr>"
  have "ToLower unicode_sample dotted_agent = ''aria2/1.36''"
    by code_simp
  then have "ToLower unicode_sample (Get (Header ?r) ''User-Agent'') = [] @ ''aria2'' @ ''/1.36''"
    by (simp add: Get_def)
  moreover have "''aria2'' \<in> set cliPatterns" by (simp add: cliPatterns_def)
  ultimately show "isCLI unicode_sample ?r" using isCLI_classify [of unicode_sample ?r] by blast
qed

section \<open>Path validation\<close>

text \<open>
  Claim C6, as amended. \<open>validatePath\<close> checks in this order: a path without a leading
  slash is rejected (nothing is prepended); a path that does not end in \<^verbatim>\<open>.sh\<close> is
  rejected; a path with a character outside \<^verbatim>\<open>[A-Za-z0-9_/.-]\<close> is rejected; every
  other path is accepted. The validator returns no rewritten path, so every path of the
  grammar \<^verbatim>\<open>^/[A-Za-z0-9_/.-]+\.sh$\<close> is accepted as it is, each time it is validated.
\<close>

theorem validatePath_rules:
  "validatePath p =
     (if take 1 p \<noteq> ''/'' then Some ''path must start with /''
      else if \<not> (\<exists>stem. p = stem @ ''.sh'') then Some ''path must end with .sh''
      else if (\<exists>c \<in> set p. \<not> valid_char c) then Some ''path contains invalid characters''
      else None)
   \<and> (path_grammar p \<longrightarrow> validatePath p = None)"
proof -
  have rules: "validatePath p =
     (if take 1 p \<noteq> ''/'' then Some ''path must start with /''
      else if \<not> (\<exists>stem. p = stem @ ''.sh'') then Some ''path must end with .sh''
      else if (\<exists>c \<in> set p. \<not> valid_char c) then Some ''path contains invalid characters''
      else None)"
    unfolding validatePath_def HasSuffix_iff MatchString_iff
    by (auto simp: HasPrefix_def)
  have "validatePath p = None" if g: "path_grammar p"
  proof -
    from g obtain rest where p: "p = CHR ''/'' # rest" and suf: "HasSuffix rest ''.sh''"
      and mid: "list_all valid_char (take (length rest - 3) rest)"
      by (auto simp: path_grammar_def split: list.splits)
    from suf obtain stem where rest: "rest = stem @ ''.sh''"
      using HasSuffix_iff by blast
    have "\<forall>c \<in> set stem. valid_char c"
      using mid rest by (simp add: list_all_iff)
    moreover have "\<forall>c \<in> set ''/.sh''. valid_char c"
      by (simp add: valid_char_def)
    ultimately have "\<forall>c \<in> set p. valid_char c"
      using p rest by auto
    moreover have "p = (CHR ''/'' # stem) @ ''.sh''" using p rest by simp
    ultimately show ?thesis
      unfolding rules using p by auto
  qed
  with rules show ?thesis by blast
qed

theorem validatePath_rules_witness:
  "path_grammar ''/tools/check_memory.sh'' \<and> validatePath ''/tools/check_memory.sh'' = None"
proof -
  have g: "path_grammar ''/tools/check_memory.sh''"
    by (simp add: path_grammar_def HasSuffix_def valid_char_def)
  with validatePath_rules [of "''/tools/check_memory.sh''"] show ?thesis by blast
qed

text \<open>
  Claim C6 as first worded has the validator prepend a missing slash. It does not: the
  path \<^verbatim>\<open>a.sh\<close> is rejected for its missing slash, while \<^verbatim>\<open>/a.sh\<close> is accepted.
\<close>

theorem validatePath_no_prepend_counterexample:
  "validatePath ''a.sh'' = Some ''path must start with /'' \<and> validatePath ''/a.sh'' = None"
  by (simp add: validatePath_def HasPrefix_def HasSuffix_def valid_char_def)

section \<open>The admin gate\<close>

text \<open>
  Claim C10. The wrapper answers 401 exactly when the configured admin token is not
  empty and differs from the supplied token: the \<^verbatim>\<open>X-Admin-Token\<close> header or, when that
  is empty, the \<^verbatim>\<open>Authorization\<close> header without its \<^verbatim>\<open>Bearer \<close> prefix. In every
  other case the wrapped handler runs; with an empty configured token it always runs.
\<close>

theorem adminOnly_gate:
  "adminOnly s next r =
     (let supplied =
        (if Get (Header r) ''X-Admin-Token'' \<noteq> '''' then Get (Header r) ''X-Admin-Token''
         else if (\<exists>t. Get (Header r) ''Authorization'' = ''Bearer '' @ t)
              then drop 7 (Get (Header r) ''Authorization'')
              else Get (Header r) ''Authorization'')
      in if AdminToken s \<noteq> '''' \<and> supplied \<noteq> AdminToken s
         then Inl (HttpError 401 ''Unauthorized'')
         else Inr (next r))
   \<and> (AdminToken s = '''' \<longrightarrow> adminOnly s next r = Inr (next r))"
proof -
  have len: "length ''Bearer '' = 7" by simp
  show ?thesis
    unfolding adminOnly_def Let_def TrimPrefix_cases len by simp
qed

theorem adminOnly_gate_witness:
  "adminOnly \<lparr>Hostname = ''sh.huny.dev'', AdminToken = ''''\<rparr> (\<lambda>r. URLPath r)
     \<lparr>Method = ''GET'', URLPath = ''/api/scripts'', Query = [], Header = [],
      RemoteAddr = ''10.0.0.1:4000''\<rparr> = Inr ''/api/scripts''"
  using adminOnly_gate [of "\<lparr>Hostname = ''sh.huny.dev'', AdminToken = ''''\<rparr>" "\<lambda>r. URLPath r"
     "\<lparr>Method = ''GET'', URLPath = ''/api/scripts'', Query = [], Header = [],
      RemoteAddr = ''10.0.0.1:4000''\<rparr>"]
  by simp

section \<open>The catalog\<close>

lemma fill_entries_eq:
  "i + length ss \<le> length entries \<Longrightarrow>
   fill_entries ss i entries = take i entries @ map entryOf ss @ drop (i + length ss) entries"
proof (induction ss arbitrary: i entries)
  case Nil
  then show ?case by simp
next
  case (Cons s ss)
  have i: "i < length entries" using Cons.prems by simp
  have "fill_entries (s # ss) i entries = fill_entries ss (Suc i) (entries[i := entryOf s])"
    by simp
  also have "\<dots> = take (Suc i) (entries[i := entryOf s]) @ map entryOf ss
                    @ drop (Suc i + length ss) (entries[i := entryOf s])"
    using Cons.prems by (intro Cons.IH) simp
  also have "take (Suc i) (entries[i := entryOf s]) = take i entries @ [entryOf s]"
    using i by (simp add: take_Suc_conv_app_nth)
  also have "drop (Suc i + length ss) (entries[i := entryOf s]) = drop (i + length (s # ss)) entries"
    by simp
  finally show ?case by simp
qed

lemma entryOf_eq:
  "entryOf s = \<lparr>EntryPath = Path s, EntryName = Name s,
                 EntryDescription = (case Description s of None \<Rightarrow> '''' | Some d \<Rightarrow> d),
                 EntryTags = (case Tags s of None \<Rightarrow> '''' | Some t \<Rightarrow> t),
                 EntryLocked = (Locked s \<noteq> 0)\<rparr>"
  by (simp add: entryOf_def split: option.splits)

lemma HandleCatalog_map: "HandleCatalog db = CatalogJSON (map entryOf (ListScripts db))"
  unfolding HandleCatalog_def Let_def by (simp add: fill_entries_eq)

lemma same_public_Path: "same_public a b \<Longrightarrow> Path b = Path a"
proof -
  assume "same_public a b"
  then have "Path b = Path (a\<lparr>Content := Content b, PasswordHash := PasswordHash b\<rparr>)"
    unfolding same_public_def by (rule arg_cong)
  then show ?thesis by simp
qed

lemma entryOf_update: "entryOf (a\<lparr>Content := c, PasswordHash := h\<rparr>) = entryOf a"
  by (simp add: entryOf_eq)

lemma same_public_entryOf: "same_public a b \<Longrightarrow> entryOf b = entryOf a"
proof -
  assume "same_public a b"
  then have "entryOf b = entryOf (a\<lparr>Content := Content b, PasswordHash := PasswordHash b\<rparr>)"
    unfolding same_public_def by (rule arg_cong)
  also have "\<dots> = entryOf a" by (rule entryOf_update)
  finally show ?thesis .
qed

lemma insort_same_public:
  "list_all2 same_public xs ys \<Longrightarrow> same_public a b \<Longrightarrow>
   list_all2 same_public (insort_key Path a xs) (insort_key Path b ys)"
proof (induction rule: list_all2_induct)
  case Nil
  then show ?case by simp
next
  case (Cons x xs y ys)
  then show ?case by (auto simp: same_public_Path)
qed

lemma sort_same_public:
  "list_all2 same_public xs ys \<Longrightarrow>
   list_all2 same_public (sort_key Path xs) (sort_key Path ys)"
  by (induction rule: list_all2_induct) (auto intro: insort_same_public)

lemma map_entryOf_same_public:
  "list_all2 same_public xs ys \<Longrightarrow> map entryOf ys = map entryOf xs"
  by (induction rule: list_all2_induct) (auto simp: same_public_entryOf)

text \<open>
  Claim C9. The catalog has one entry for each script, holding the script's path, name,
  description, tags and lock flag and nothing else; a locked script is listed with
  \<^verbatim>\<open>locked: true\<close>. Two databases whose scripts differ only in content or password hash
  have the same catalog.
\<close>

theorem catalog_projection:
  "HandleCatalog db =
     CatalogJSON (map (\<lambda>s. \<lparr>EntryPath = Path s, EntryName = Name s,
                             EntryDescription = (case Description s of None \<Rightarrow> '''' | Some d \<Rightarrow> d),
                             EntryTags = (case Tags s of None \<Rightarrow> '''' | Some t \<Rightarrow> t),
                             EntryLocked = (Locked s \<noteq> 0)\<rparr>) (ListScripts db))
   \<and> (list_all2 (\<lambda>a b. b = a\<lparr>Content := Content b, PasswordHash := PasswordHash b\<rparr>)
         (scripts db) (scripts db')
       \<longrightarrow> HandleCatalog db' = HandleCatalog db)"
proof -
  have "map entryOf (ListScripts db') = map entryOf (ListScripts db)"
    if "list_all2 same_public (scripts db) (scripts db')"
    using that unfolding ListScripts_def
    by (intro map_entryOf_same_public sort_same_public)
  then show ?thesis
    unfolding HandleCatalog_map same_public_def
    by (simp add: entryOf_eq [abs_def])
qed

theorem catalog_projection_witness:
  "HandleCatalog (demo_db\<lparr>scripts := [demo_script\<lparr>Content := ''echo two'', PasswordHash := None\<rparr>]\<rparr>)
     = HandleCatalog demo_db
   \<and> HandleCatalog demo_db =
       CatalogJSON [\<lparr>EntryPath = ''/private/secret.sh'', EntryName = ''secret.sh'',
                     EntryDescription = ''a secret'', EntryTags = '''', EntryLocked = True\<rparr>]"
  using catalog_projection [of demo_db
          "demo_db\<lparr>scripts := [demo_script\<lparr>Content := ''echo two'', PasswordHash := None\<rparr>]\<rparr>"]
  by (simp add: demo_db_def demo_script_def ListScripts_def)

section \<open>Serving a script\<close>

lemma preview_lines_eq:
  "m \<le> length lines \<Longrightarrow>
   preview_lines lines i m = concat (map (\<lambda>l. l @ [nl]) (take (m - i) (drop i lines)))"
proof (induction lines i m rule: preview_lines.induct)
  case (1 lines i m)
  show ?case
  proof (cases "i < m")
    case True
    then have il: "i < length lines" using "1.prems" by simp
    have "take (m - i) (drop i lines) = lines ! i # take (m - Suc i) (drop (Suc i) lines)"
      using True il
      by (metis Cons_nth_drop_Suc Suc_diff_Suc take_Suc_Cons)
    then show ?thesis
      using True "1.IH" "1.prems" by (subst preview_lines.simps) simp
  next
    case False
    then show ?thesis by (subst preview_lines.simps) simp
  qed
qed

text \<open>
  Claim C2. A request for a stored script with \<^verbatim>\<open>preview=1\<close> is answered with the
  script's name, its description and tags (when not empty) and the first 20 lines of its
  content, whatever the lock flag, the tokens and the headers are: the preview branch comes
  before the lock check.
\<close>

theorem preview_not_gated:
  assumes "GetScriptByPath db (if HasPrefix (URLPath r) ''/'' then URLPath r else ''/'' @ URLPath r)
             = Some script"
      and "Get (Query r) ''preview'' = ''1''"
  shows "HandleScript s x db r =
     TextPlain ''''
       (''# '' @ Name script @ [nl]
        @ (case Description script of
             None \<Rightarrow> [] | Some d \<Rightarrow> if d = [] then [] else ''# '' @ d @ [nl])
        @ (case Tags script of
             None \<Rightarrow> [] | Some t \<Rightarrow> if t = [] then [] else ''# Tags: '' @ t @ [nl])
        @ [nl] @ ''# Content:'' @ [nl]
        @ concat (map (\<lambda>l. l @ [nl]) (take 20 (Split (Content script) nl)))
        @ (if 20 < length (Split (Content script) nl)
           then [nl] @ ''... ('' @ Itoa (length (Split (Content script) nl) - 20)
                @ '' more lines)'' @ [nl]
           else []))"
proof -
  have "preview script =
        ''# '' @ Name script @ [nl]
        @ (case Description script of
             None \<Rightarrow> [] | Some d \<Rightarrow> if d = [] then [] else ''# '' @ d @ [nl])
        @ (case Tags script of
             None \<Rightarrow> [] | Some t \<Rightarrow> if t = [] then [] else ''# Tags: '' @ t @ [nl])
        @ [nl] @ ''# Content:'' @ [nl]
        @ concat (map (\<lambda>l. l @ [nl]) (take 20 (Split (Content script) nl)))
        @ (if 20 < length (Split (Content script) nl)
           then [nl] @ ''... ('' @ Itoa (length (Split (Content script) nl) - 20)
                @ '' more lines)'' @ [nl]
           else [])"
    unfolding preview_def Let_def
    by (simp add: preview_lines_eq split: option.splits)
  then show ?thesis
    using assms unfolding HandleScript_def Let_def by (simp split: if_splits)
qed

theorem preview_not_gated_witness:
  "HandleScript \<lparr>Hostname = ''sh.huny.dev'', AdminToken = ''t''\<rparr>
     \<lparr>CompareHashAndPassword = (\<lambda>h p. False), GenerateFromPassword = (\<lambda>p. None),
      Now = (\<lambda>k. 1000), NewUUID = (\<lambda>k. ''u'')\<rparr>
     demo_db
     \<lparr>Method = ''GET'', URLPath = ''/private/secret.sh'', Query = [(''preview'', ''1'')],
      Header = [], RemoteAddr = ''10.0.0.1:4000''\<rparr>
   = TextPlain '''' (''# secret.sh'' @ [nl] @ ''# a secret'' @ [nl] @ [nl] @ ''# Content:'' @ [nl]
                     @ ''echo one'' @ [nl])
   \<and> Locked demo_script \<noteq> 0"
proof -
  let ?r = "\<lparr>Method = ''GET'', URLPath = ''/private/secret.sh'', Query = [(''preview'', ''1'')],
      Header = [], RemoteAddr = ''10.0.0.1:4000''\<rparr>"
  have 1: "GetScriptByPath demo_db
            (if HasPrefix (URLPath ?r) ''/'' then URLPath ?r else ''/'' @ URLPath ?r)
           = Some demo_script"
    by (simp add: GetScriptByPath_def demo_db_def demo_script_def HasPrefix_def)
  have 2: "Get (Query ?r) ''preview'' = ''1''" by (simp add: Get_def)
  show ?thesis
    using preview_not_gated [OF 1 2, of "\<lparr>Hostname = ''sh.huny.dev'', AdminToken = ''t''\<rparr>"
      "\<lparr>CompareHashAndPassword = (\<lambda>h p. False), GenerateFromPassword = (\<lambda>p. None),
      Now = (\<lambda>k. 1000), NewUUID = (\<lambda>k. ''u'')\<rparr>"]
    by (simp add: demo_script_def)
qed

lemma find_distinct_key:
  "distinct (map key xs) \<Longrightarrow>
   find (\<lambda>a. key a = k) xs = Some a \<longleftrightarrow> a \<in> set xs \<and> key a = k"
proof (induction xs)
  case Nil
  then show ?case by simp
next
  case (Cons y ys)
  then show ?case by (cases "key y = k") (auto simp: image_iff)
qed

lemma find_None_key: "find (\<lambda>a. key a = k) xs = None \<longleftrightarrow> k \<notin> key ` set xs"
  by (induction xs) auto

lemma requestToken_eq:
  "requestToken r =
     (if Get (Query r) ''token'' \<noteq> '''' then Get (Query r) ''token''
      else if (\<exists>t. Get (Header r) ''Authorization'' = ''Bearer '' @ t)
           then drop 7 (Get (Header r) ''Authorization'')
           else Get (Header r) ''Authorization'')"
proof -
  have len: "length ''Bearer '' = 7" by simp
  show ?thesis unfolding requestToken_def TrimPrefix_cases len by simp
qed

lemma token_valid_iff:
  assumes "distinct (map Token (auth_tokens db))"
  shows "(case GetAuthToken db token of None \<Rightarrow> False
          | Some a \<Rightarrow> ScriptID a = i \<and> now < ExpiresAt a)
         \<longleftrightarrow> (\<exists>a \<in> set (auth_tokens db).
                 Token a = token \<and> ScriptID a = i \<and> now < ExpiresAt a)"
proof (cases "GetAuthToken db token")
  case None
  then have "token \<notin> Token ` set (auth_tokens db)"
    unfolding GetAuthToken_def by (simp add: find_None_key)
  with None show ?thesis by auto
next
  case (Some a)
  then have a: "a \<in> set (auth_tokens db)" "Token a = token"
    using assms unfolding GetAuthToken_def by (simp_all add: find_distinct_key)
  have uniq: "b = a" if "b \<in> set (auth_tokens db)" "Token b = token" for b
    using that a assms by (metis distinct_map inj_onD)
  have "(\<exists>b \<in> set (auth_tokens db). Token b = token \<and> ScriptID b = i \<and> now < ExpiresAt b)
        \<longleftrightarrow> (ScriptID a = i \<and> now < ExpiresAt a)"
    using a uniq by blast
  then show ?thesis by (simp add: Some)
qed

lemma HandleScript_locked:
  assumes "GetScriptByPath db (if \<not> HasPrefix (URLPath r) ''/'' then ''/'' @ URLPath r else URLPath r)
             = Some script"
      and "Locked script \<noteq> 0"
      and "Get (Query r) ''preview'' \<noteq> ''1''"
  shows "HandleScript s x db r =
          (if requestToken r \<noteq> ''''
               \<and> (case GetAuthToken db (requestToken r) of None \<Rightarrow> False
                   | Some a \<Rightarrow> ScriptID a = ID script \<and> Now x 0 < ExpiresAt a)
           then TextPlain ''no-store'' (Content script)
           else PasswordPrompt (Hostname s)
                  (if \<not> HasPrefix (URLPath r) ''/'' then ''/'' @ URLPath r else URLPath r))"
  unfolding HandleScript_def Let_def servePasswordPrompt_def
  using assms by simp

text \<open>
  Claim C1. A request for a locked script, not a preview, is answered with the script's
  content exactly when a token is supplied (the query parameter \<^verbatim>\<open>token\<close> or, when that
  is empty, the \<^verbatim>\<open>Authorization\<close> header without its \<^verbatim>\<open>Bearer \<close> prefix), the token is
  that of a stored record, the record's script is the requested one and its expiry is
  later than now. In every other case the answer is the password prompt, the same for
  each kind of failure. A token stored for another script never opens this one. (The
  token column is the table's primary key, hence \<open>distinct\<close>.)
\<close>

theorem locked_script_gate:
  assumes "GetScriptByPath db (if \<not> HasPrefix (URLPath r) ''/'' then ''/'' @ URLPath r else URLPath r)
             = Some script"
      and "Locked script \<noteq> 0"
      and "Get (Query r) ''preview'' \<noteq> ''1''"
      and "distinct (map Token (auth_tokens db))"
  shows "requestToken r =
           (if Get (Query r) ''token'' \<noteq> '''' then Get (Query r) ''token''
            else if (\<exists>t. Get (Header r) ''Authorization'' = ''Bearer '' @ t)
                 then drop 7 (Get (Header r) ''Authorization'')
                 else Get (Header r) ''Authorization'')
       \<and> HandleScript s x db r =
           (if requestToken r \<noteq> ''''
               \<and> (\<exists>a \<in> set (auth_tokens db).
                     Token a = requestToken r \<and> ScriptID a = ID script \<and> Now x 0 < ExpiresAt a)
            then TextPlain ''no-store'' (Content script)
            else PasswordPrompt (Hostname s)
                   (if \<not> HasPrefix (URLPath r) ''/'' then ''/'' @ URLPath r else URLPath r))
       \<and> (\<forall>a \<in> set (auth_tokens db).
             Token a = requestToken r \<and> ScriptID a \<noteq> ID script \<longrightarrow>
             HandleScript s x db r =
               PasswordPrompt (Hostname s)
                 (if \<not> HasPrefix (URLPath r) ''/'' then ''/'' @ URLPath r else URLPath r))"
proof -
  let ?path = "if \<not> HasPrefix (URLPath r) ''/'' then ''/'' @ URLPath r else URLPath r"
  let ?granted = "\<exists>a \<in> set (auth_tokens db).
                     Token a = requestToken r \<and> ScriptID a = ID script \<and> Now x 0 < ExpiresAt a"
  have main: "HandleScript s x db r =
          (if requestToken r \<noteq> '''' \<and> ?granted
           then TextPlain ''no-store'' (Content script)
           else PasswordPrompt (Hostname s) ?path)"
    using HandleScript_locked [OF assms(1-3), of s x]
    unfolding token_valid_iff [OF assms(4)] .
  have other: "HandleScript s x db r = PasswordPrompt (Hostname s) ?path"
    if a: "a \<in> set (auth_tokens db)" "Token a = requestToken r" "ScriptID a \<noteq> ID script" for a
  proof -
    have "b = a" if "b \<in> set (auth_tokens db)" "Token b = requestToken r" for b
      using that a(1,2) assms(4) by (metis distinct_map inj_onD)
    then have "\<not> ?granted"
      using a(3) by blast
    then show ?thesis using main by presburger
  qed
  from other have other': "\<forall>a \<in> set (auth_tokens db).
             Token a = requestToken r \<and> ScriptID a \<noteq> ID script \<longrightarrow>
             HandleScript s x db r = PasswordPrompt (Hostname s) ?path"
    by blast
  show ?thesis
    using requestToken_eq [of r] main other' by (intro conjI)
qed

theorem locked_script_gate_witness:
  "HandleScript \<lparr>Hostname = ''sh.huny.dev'', AdminToken = ''t''\<rparr>
     \<lparr>CompareHashAndPassword = (\<lambda>h p. False), GenerateFromPassword = (\<lambda>p. None),
      Now = (\<lambda>k. 1000), NewUUID = (\<lambda>k. ''u'')\<rparr>
     (demo_db\<lparr>auth_tokens := [\<lparr>Token = ''tok-a'', ScriptID = ''s1'', ExpiresAt = 1001,
                                TokenCreatedAt = 1, IpAddress = None, UserAgent = None\<rparr>,
                               \<lparr>Token = ''tok-b'', ScriptID = ''s2'', ExpiresAt = 1001,
                                TokenCreatedAt = 1, IpAddress = None, UserAgent = None\<rparr>]\<rparr>)
     \<lparr>Method = ''GET'', URLPath = ''/private/secret.sh'', Query = [],
      Header = [(''Authorization'', ''Bearer tok-a'')], RemoteAddr = ''10.0.0.1:4000''\<rparr>
   = TextPlain ''no-store'' ''echo one''"
proof -
  let ?db = "demo_db\<lparr>auth_tokens := [\<lparr>Token = ''tok-a'', ScriptID = ''s1'', ExpiresAt = 1001,
                                TokenCreatedAt = 1, IpAddress = None, UserAgent = None\<rparr>,
                               \<lparr>Token = ''tok-b'', ScriptID = ''s2'', ExpiresAt = 1001,
                                TokenCreatedAt = 1, IpAddress = None, UserAgent = None\<rparr>]\<rparr>"
  let ?r = "\<lparr>Method = ''GET'', URLPath = ''/private/secret.sh'', Query = [],
      Header = [(''Authorization'', ''Bearer tok-a'')], RemoteAddr = ''10.0.0.1:4000''\<rparr>"
  have 1: "GetScriptByPath ?db
            (if \<not> HasPrefix (URLPath ?r) ''/'' then ''/'' @ URLPath ?r else URLPath ?r)
           = Some demo_script"
    by (simp add: GetScriptByPath_def demo_db_def demo_script_def HasPrefix_def)
  have 2: "Locked demo_script \<noteq> 0" by (simp add: demo_script_def)
  have 3: "Get (Query ?r) ''preview'' \<noteq> ''1''" by (simp add: Get_def)
  have 4: "distinct (map Token (auth_tokens ?db))" by simp
  have 5: "requestToken ?r = ''tok-a''"
    by (simp add: requestToken_def Get_def TrimPrefix_def HasPrefix_def)
  show ?thesis
    using locked_script_gate [OF 1 2 3 4, of "\<lparr>Hostname = ''sh.huny.dev'', AdminToken = ''t''\<rparr>"
      "\<lparr>CompareHashAndPassword = (\<lambda>h p. False), GenerateFromPassword = (\<lambda>p. None),
      Now = (\<lambda>k. 1000), NewUUID = (\<lambda>k. ''u'')\<rparr>"]
    unfolding 5 by (simp add: demo_script_def)
qed

section \<open>Unlocking\<close>

lemma HandleUnlock_failed:
  assumes "Method r = ''POST''"
      and "GetScriptByPath db (BodyPath req) = Some script"
      and "Locked script \<noteq> 0"
      and "PasswordHash script = Some hash"
      and "\<not> CompareHashAndPassword x hash (BodyPassword req)"
  shows "HandleUnlock x db r (Some req) =
           (db\<lparr>audit_log := audit_log db @ [unlockAudit ''UNLOCK_FAILED'' script req r (Now x 0)]\<rparr>,
            HttpError 401 ''Invalid password'')"
  using assms unfolding HandleUnlock_def CreateAuditLog_def by simp

lemma fresh_list_ex:
  "t \<notin> Token ` set toks \<Longrightarrow> \<not> list_ex (\<lambda>b. Token b = t) toks"
  unfolding list_ex_iff by blast

lemma CreateAuthToken_fresh:
  "Token a \<notin> Token ` set (auth_tokens db) \<Longrightarrow>
   CreateAuthToken db a = Some (db\<lparr>auth_tokens := auth_tokens db @ [a]\<rparr>)"
  unfolding CreateAuthToken_def by (simp add: fresh_list_ex)

lemma HandleUnlock_success:
  assumes "Method r = ''POST''"
      and "GetScriptByPath db (BodyPath req) = Some script"
      and "Locked script \<noteq> 0"
      and "PasswordHash script = Some hash"
      and "CompareHashAndPassword x hash (BodyPassword req)"
      and "NewUUID x 0 \<notin> Token ` set (auth_tokens db)"
  shows "HandleUnlock x db r (Some req) =
           (db\<lparr>auth_tokens := auth_tokens db @
                   [\<lparr>Token = NewUUID x 0, ScriptID = ID script,
                     ExpiresAt = Now x 0 + 300000000000, TokenCreatedAt = Now x 1,
                     IpAddress = Some (RemoteAddr r),
                     UserAgent = Some (Get (Header r) ''User-Agent'')\<rparr>],
                audit_log := audit_log db @
                   [unlockAudit ''UNLOCK_SUCCESS'' script req r (Now x 2)]\<rparr>,
            UnlockJSON (NewUUID x 0) (Now x 0 + 300000000000))"
proof -
  let ?tok = "\<lparr>Token = NewUUID x 0, ScriptID = ID script,
                     ExpiresAt = Now x 0 + 5 * Minute, TokenCreatedAt = Now x 1,
                     IpAddress = Some (RemoteAddr r),
                     UserAgent = Some (Get (Header r) ''User-Agent'')\<rparr>"
  have five: "5 * Minute = 300000000000" by (simp add: Minute_def)
  have "Token ?tok \<notin> Token ` set (auth_tokens db)" using assms(6) by simp
  then have c: "CreateAuthToken db ?tok = Some (db\<lparr>auth_tokens := auth_tokens db @ [?tok]\<rparr>)"
    by (rule CreateAuthToken_fresh)
  have "HandleUnlock x db r (Some req) =
         (CreateAuditLog (db\<lparr>auth_tokens := auth_tokens db @ [?tok]\<rparr>)
            (unlockAudit ''UNLOCK_SUCCESS'' script req r (Now x 2)),
          UnlockJSON (NewUUID x 0) (Now x 0 + 5 * Minute))"
    unfolding HandleUnlock_def Let_def
    using assms(1-5) c by simp
  then show ?thesis
    unfolding CreateAuditLog_def five by simp
qed

lemma unlocks_failed:
  assumes "GetScriptByPath db path = Some script"
      and "Locked script \<noteq> 0"
      and "PasswordHash script = Some hash"
      and "\<forall>(x', r', b') \<in> set attempts.
             Method r' = ''POST'' \<and>
             (\<exists>req'. b' = Some req' \<and> BodyPath req' = path
                     \<and> \<not> CompareHashAndPassword x' hash (BodyPassword req'))"
  shows "\<exists>entries. unlocks db attempts = db\<lparr>audit_log := audit_log db @ entries\<rparr>
           \<and> map Action entries = replicate (length attempts) ''UNLOCK_FAILED''"
  using assms
proof (induction attempts arbitrary: db)
  case Nil
  have "unlocks db [] = db\<lparr>audit_log := audit_log db @ []\<rparr>" by simp
  then show ?case by (metis length_0_conv list.simps(8) replicate_empty)
next
  case (Cons att attempts)
  obtain x' r' b' where att: "att = (x', r', b')" by (cases att)
  from Cons.prems(4) att obtain req' where
    post: "Method r' = ''POST''" and b': "b' = Some req'" and
    path: "BodyPath req' = path" and
    wrong: "\<not> CompareHashAndPassword x' hash (BodyPassword req')"
    by auto
  define e where "e = unlockAudit ''UNLOCK_FAILED'' script req' r' (Now x' 0)"
  define db1 where "db1 = db\<lparr>audit_log := audit_log db @ [e]\<rparr>"
  have step: "HandleUnlock x' db r' b' = (db1, HttpError 401 ''Invalid password'')"
    unfolding b' db1_def e_def
    using Cons.prems(1-3) post path wrong by (intro HandleUnlock_failed) simp_all
  have s1: "GetScriptByPath db1 path = Some script"
    using Cons.prems(1) unfolding db1_def GetScriptByPath_def by simp
  have rest: "\<forall>(x', r', b') \<in> set attempts.
             Method r' = ''POST'' \<and>
             (\<exists>req'. b' = Some req' \<and> BodyPath req' = path
                     \<and> \<not> CompareHashAndPassword x' hash (BodyPassword req'))"
    using Cons.prems(4) by simp
  from Cons.IH [OF s1 Cons.prems(2,3) rest]
  obtain entries where
    u: "unlocks db1 attempts = db1\<lparr>audit_log := audit_log db1 @ entries\<rparr>" and
    a: "map Action entries = replicate (length attempts) ''UNLOCK_FAILED''"
    by blast
  have "unlocks db (att # attempts) = unlocks db1 attempts"
    unfolding att using step by simp
  also have "\<dots> = db\<lparr>audit_log := audit_log db @ (e # entries)\<rparr>"
    using u unfolding db1_def by simp
  finally have "unlocks db (att # attempts) = db\<lparr>audit_log := audit_log db @ (e # entries)\<rparr>" .
  moreover have "map Action (e # entries) = replicate (length (att # attempts)) ''UNLOCK_FAILED''"
    using a unfolding e_def unlockAudit_def by simp
  ultimately show ?case by blast
qed

lemma unlocks_append: "unlocks db (xs @ ys) = unlocks (unlocks db xs) ys"
  by (induction xs arbitrary: db) auto

text \<open>
  Claim C5. For an unlock request against a locked script that has a password hash:
  when the bcrypt comparison fails, the reply is 401 and the database changes by exactly
  one \<^verbatim>\<open>UNLOCK_FAILED\<close> audit entry (no token is created); when it succeeds (the new
  token being a fresh identifier), the database changes by exactly one token row, expiring
  five minutes after now, and one \<^verbatim>\<open>UNLOCK_SUCCESS\<close> audit entry, and the reply carries
  that token and its expiry. A run of wrong passwords adds one \<^verbatim>\<open>UNLOCK_FAILED\<close> entry
  for each and no token, and a correct password after it adds one token and one
  \<^verbatim>\<open>UNLOCK_SUCCESS\<close> entry.
\<close>

theorem unlock_outcomes:
  assumes "Method r = ''POST''"
      and "GetScriptByPath db (BodyPath req) = Some script"
      and "Locked script \<noteq> 0"
      and "PasswordHash script = Some hash"
  shows "(\<not> CompareHashAndPassword x hash (BodyPassword req) \<longrightarrow>
            HandleUnlock x db r (Some req) =
              (db\<lparr>audit_log := audit_log db @
                     [\<lparr>Action = ''UNLOCK_FAILED'', EntityType = ''script'',
                       EntityID = Some (ID script), EntityPath = Some (BodyPath req),
                       Details = None, AuditIpAddress = Some (RemoteAddr r),
                       AuditUserAgent = Some (Get (Header r) ''User-Agent''),
                       AuditCreatedAt = Now x 0\<rparr>]\<rparr>,
               HttpError 401 ''Invalid password''))
       \<and> (CompareHashAndPassword x hash (BodyPassword req)
            \<and> NewUUID x 0 \<notin> Token ` set (auth_tokens db) \<longrightarrow>
            HandleUnlock x db r (Some req) =
              (db\<lparr>auth_tokens := auth_tokens db @
                     [\<lparr>Token = NewUUID x 0, ScriptID = ID script,
                       ExpiresAt = Now x 0 + 300000000000, TokenCreatedAt = Now x 1,
                       IpAddress = Some (RemoteAddr r),
                       UserAgent = Some (Get (Header r) ''User-Agent'')\<rparr>],
                   audit_log := audit_log db @
                     [\<lparr>Action = ''UNLOCK_SUCCESS'', EntityType = ''script'',
                       EntityID = Some (ID script), EntityPath = Some (BodyPath req),
                       Details = None, AuditIpAddress = Some (RemoteAddr r),
                       AuditUserAgent = Some (Get (Header r) ''User-Agent''),
                       AuditCreatedAt = Now x 2\<rparr>]\<rparr>,
               UnlockJSON (NewUUID x 0) (Now x 0 + 300000000000)))
       \<and> ((\<forall>(x', r', b') \<in> set attempts.
              Method r' = ''POST'' \<and>
              (\<exists>req'. b' = Some req' \<and> BodyPath req' = BodyPath req
                      \<and> \<not> CompareHashAndPassword x' hash (BodyPassword req')))
            \<and> CompareHashAndPassword x hash (BodyPassword req)
            \<and> NewUUID x 0 \<notin> Token ` set (auth_tokens db) \<longrightarrow>
            auth_tokens (unlocks db attempts) = auth_tokens db
            \<and> map Action (audit_log (unlocks db attempts))
                = map Action (audit_log db) @ replicate (length attempts) ''UNLOCK_FAILED''
            \<and> map Token (auth_tokens (unlocks db (attempts @ [(x, r, Some req)])))
                = map Token (auth_tokens db) @ [NewUUID x 0]
            \<and> map Action (audit_log (unlocks db (attempts @ [(x, r, Some req)])))
                = map Action (audit_log db) @ replicate (length attempts) ''UNLOCK_FAILED''
                  @ [''UNLOCK_SUCCESS''])"
  (is "?A \<and> ?B \<and> ?C")
proof -
  have failed: "HandleUnlock x db r (Some req) =
              (db\<lparr>audit_log := audit_log db @
                     [\<lparr>Action = ''UNLOCK_FAILED'', EntityType = ''script'',
                       EntityID = Some (ID script), EntityPath = Some (BodyPath req),
                       Details = None, AuditIpAddress = Some (RemoteAddr r),
                       AuditUserAgent = Some (Get (Header r) ''User-Agent''),
                       AuditCreatedAt = Now x 0\<rparr>]\<rparr>,
               HttpError 401 ''Invalid password'')"
    if "\<not> CompareHashAndPassword x hash (BodyPassword req)"
    using HandleUnlock_failed [OF assms that] unfolding unlockAudit_def .
  have success: "HandleUnlock x db r (Some req) =
              (db\<lparr>auth_tokens := auth_tokens db @
                     [\<lparr>Token = NewUUID x 0, ScriptID = ID script,
                       ExpiresAt = Now x 0 + 300000000000, TokenCreatedAt = Now x 1,
                       IpAddress = Some (RemoteAddr r),
                       UserAgent = Some (Get (Header r) ''User-Agent'')\<rparr>],
                   audit_log := audit_log db @
                     [\<lparr>Action = ''UNLOCK_SUCCESS'', EntityType = ''script'',
                       EntityID = Some (ID script), EntityPath = Some (BodyPath req),
                       Details = None, AuditIpAddress = Some (RemoteAddr r),
                       AuditUserAgent = Some (Get (Header r) ''User-Agent''),
                       AuditCreatedAt = Now x 2\<rparr>]\<rparr>,
               UnlockJSON (NewUUID x 0) (Now x 0 + 300000000000))"
    if "CompareHashAndPassword x hash (BodyPassword req)"
      and "NewUUID x 0 \<notin> Token ` set (auth_tokens db)"
    using HandleUnlock_success [OF assms that] unfolding unlockAudit_def .
  have run: "auth_tokens (unlocks db attempts) = auth_tokens db
        \<and> map Action (audit_log (unlocks db attempts))
            = map Action (audit_log db) @ replicate (length attempts) ''UNLOCK_FAILED''
        \<and> map Token (auth_tokens (unlocks db (attempts @ [(x, r, Some req)])))
            = map Token (auth_tokens db) @ [NewUUID x 0]
        \<and> map Action (audit_log (unlocks db (attempts @ [(x, r, Some req)])))
            = map Action (audit_log db) @ replicate (length attempts) ''UNLOCK_FAILED''
              @ [''UNLOCK_SUCCESS'']"
    if wrong: "\<forall>(x', r', b') \<in> set attempts.
              Method r' = ''POST'' \<and>
              (\<exists>req'. b' = Some req' \<and> BodyPath req' = BodyPath req
                      \<and> \<not> CompareHashAndPassword x' hash (BodyPassword req'))"
      and ok: "CompareHashAndPassword x hash (BodyPassword req)"
      and fresh: "NewUUID x 0 \<notin> Token ` set (auth_tokens db)"
  proof -
    from unlocks_failed [OF assms(2-4) wrong]
    obtain entries where
      u: "unlocks db attempts = db\<lparr>audit_log := audit_log db @ entries\<rparr>" and
      a: "map Action entries = replicate (length attempts) ''UNLOCK_FAILED''"
      by blast
    define db1 where "db1 = db\<lparr>audit_log := audit_log db @ entries\<rparr>"
    have s1: "GetScriptByPath db1 (BodyPath req) = Some script"
      using assms(2) unfolding db1_def GetScriptByPath_def by simp
    have f1: "NewUUID x 0 \<notin> Token ` set (auth_tokens db1)"
      using fresh unfolding db1_def by simp
    have "unlocks db (attempts @ [(x, r, Some req)]) = fst (HandleUnlock x db1 r (Some req))"
      unfolding unlocks_append u db1_def by simp
    then have last: "unlocks db (attempts @ [(x, r, Some req)]) =
        db1\<lparr>auth_tokens := auth_tokens db1 @
                     [\<lparr>Token = NewUUID x 0, ScriptID = ID script,
                       ExpiresAt = Now x 0 + 300000000000, TokenCreatedAt = Now x 1,
                       IpAddress = Some (RemoteAddr r),
                       UserAgent = Some (Get (Header r) ''User-Agent'')\<rparr>],
             audit_log := audit_log db1 @
                     [unlockAudit ''UNLOCK_SUCCESS'' script req r (Now x 2)]\<rparr>"
      unfolding HandleUnlock_success [OF assms(1) s1 assms(3,4) ok f1] by simp
    have "auth_tokens (unlocks db attempts) = auth_tokens db"
      unfolding u by simp
    moreover have "map Action (audit_log (unlocks db attempts))
            = map Action (audit_log db) @ replicate (length attempts) ''UNLOCK_FAILED''"
      unfolding u using a by simp
    moreover have "map Token (auth_tokens (unlocks db (attempts @ [(x, r, Some req)])))
            = map Token (auth_tokens db) @ [NewUUID x 0]"
      unfolding last db1_def by simp
    moreover have "map Action (audit_log (unlocks db (attempts @ [(x, r, Some req)])))
            = map Action (audit_log db) @ replicate (length attempts) ''UNLOCK_FAILED''
              @ [''UNLOCK_SUCCESS'']"
      unfolding last db1_def using a by (simp add: unlockAudit_def)
    ultimately show ?thesis by blast
  qed
  have A: ?A using failed by (intro impI)
  have B: ?B using success by (intro impI) (elim conjE)
  have C: ?C using run by (intro impI) (elim conjE)
  show ?thesis using A B C by (intro conjI)
qed

theorem unlock_outcomes_witness:
  "HandleUnlock demo_ext demo_db demo_unlock
     (Some \<lparr>BodyPath = ''/private/secret.sh'', BodyPassword = ''guess''\<rparr>)
   = (demo_db\<lparr>audit_log :=
        [\<lparr>Action = ''UNLOCK_FAILED'', EntityType = ''script'', EntityID = Some ''s1'',
          EntityPath = Some ''/private/secret.sh'', Details = None,
          AuditIpAddress = Some ''10.0.0.1:4000'', AuditUserAgent = Some ''curl/8.0'',
          AuditCreatedAt = 1000\<rparr>]\<rparr>,
      HttpError 401 ''Invalid password'')
   \<and> HandleUnlock demo_ext demo_db demo_unlock
     (Some \<lparr>BodyPath = ''/private/secret.sh'', BodyPassword = ''open sesame''\<rparr>)
   = (demo_db\<lparr>auth_tokens :=
        [\<lparr>Token = ''uuid-0'', ScriptID = ''s1'', ExpiresAt = 300000001000,
          TokenCreatedAt = 1001, IpAddress = Some ''10.0.0.1:4000'',
          UserAgent = Some ''curl/8.0''\<rparr>],
        audit_log :=
        [\<lparr>Action = ''UNLOCK_SUCCESS'', EntityType = ''script'', EntityID = Some ''s1'',
          EntityPath = Some ''/private/secret.sh'', Details = None,
          AuditIpAddress = Some ''10.0.0.1:4000'', AuditUserAgent = Some ''curl/8.0'',
          AuditCreatedAt = 1002\<rparr>]\<rparr>,
      UnlockJSON ''uuid-0'' 300000001000)
   \<and> map Action (audit_log (unlocks demo_db
         [(demo_ext, demo_unlock,
           Some \<lparr>BodyPath = ''/private/secret.sh'', BodyPassword = ''guess''\<rparr>),
          (demo_ext, demo_unlock,
           Some \<lparr>BodyPath = ''/private/secret.sh'', BodyPassword = ''12345''\<rparr>),
          (demo_ext, demo_unlock,
           Some \<lparr>BodyPath = ''/private/secret.sh'', BodyPassword = ''''\<rparr>),
          (demo_ext, demo_unlock,
           Some \<lparr>BodyPath = ''/private/secret.sh'', BodyPassword = ''open sesame''\<rparr>)]))
     = [''UNLOCK_FAILED'', ''UNLOCK_FAILED'', ''UNLOCK_FAILED'', ''UNLOCK_SUCCESS'']
   \<and> map Token (auth_tokens (unlocks demo_db
         [(demo_ext, demo_unlock,
           Some \<lparr>BodyPath = ''/private/secret.sh'', BodyPassword = ''guess''\<rparr>),
          (demo_ext, demo_unlock,
           Some \<lparr>BodyPath = ''/private/secret.sh'', BodyPassword = ''12345''\<rparr>),
          (demo_ext, demo_unlock,
           Some \<lparr>BodyPath = ''/private/secret.sh'', BodyPassword = ''''\<rparr>),
          (demo_ext, demo_unlock,
           Some \<lparr>BodyPath = ''/private/secret.sh'', BodyPassword = ''open sesame''\<rparr>)]))
     = [''uuid-0'']"
proof -
  let ?bad = "\<lparr>BodyPath = ''/private/secret.sh'', BodyPassword = ''guess''\<rparr>"
  let ?good = "\<lparr>BodyPath = ''/private/secret.sh'', BodyPassword = ''open sesame''\<rparr>"
  let ?tries = "[(demo_ext, demo_unlock, Some ?bad),
          (demo_ext, demo_unlock,
           Some \<lparr>BodyPath = ''/private/secret.sh'', BodyPassword = ''12345''\<rparr>),
          (demo_ext, demo_unlock,
           Some \<lparr>BodyPath = ''/private/secret.sh'', BodyPassword = ''''\<rparr>)]"
  have post: "Method demo_unlock = ''POST''" by (simp add: demo_unlock_def)
  have bad_found: "GetScriptByPath demo_db (BodyPath ?bad) = Some demo_script"
    by (simp add: GetScriptByPath_def demo_db_def demo_script_def)
  have good_found: "GetScriptByPath demo_db (BodyPath ?good) = Some demo_script"
    by (simp add: GetScriptByPath_def demo_db_def demo_script_def)
  have locked: "Locked demo_script \<noteq> 0" by (simp add: demo_script_def)
  have hash: "PasswordHash demo_script = Some ''$2a$10$hash''" by (simp add: demo_script_def)
  have bad: "\<not> CompareHashAndPassword demo_ext ''$2a$10$hash'' (BodyPassword ?bad)"
    by (simp add: demo_ext_def)
  have good: "CompareHashAndPassword demo_ext ''$2a$10$hash'' (BodyPassword ?good)
              \<and> NewUUID demo_ext 0 \<notin> Token ` set (auth_tokens demo_db)"
    by (simp add: demo_ext_def demo_db_def)
  have tries: "\<forall>(x', r', b') \<in> set ?tries.
              Method r' = ''POST'' \<and>
              (\<exists>req'. b' = Some req' \<and> BodyPath req' = BodyPath ?good
                      \<and> \<not> CompareHashAndPassword x' ''$2a$10$hash'' (BodyPassword req'))"
    by (simp add: demo_ext_def demo_unlock_def)
  have first: "HandleUnlock demo_ext demo_db demo_unlock (Some ?bad)
     = (demo_db\<lparr>audit_log :=
        [\<lparr>Action = ''UNLOCK_FAILED'', EntityType = ''script'', EntityID = Some ''s1'',
          EntityPath = Some ''/private/secret.sh'', Details = None,
          AuditIpAddress = Some ''10.0.0.1:4000'', AuditUserAgent = Some ''curl/8.0'',
          AuditCreatedAt = 1000\<rparr>]\<rparr>,
      HttpError 401 ''Invalid password'')"
    using unlock_outcomes [OF post bad_found locked hash, of demo_ext "[]"] bad
    by (simp add: demo_ext_def demo_db_def demo_script_def demo_unlock_def Get_def)
  have rest: "HandleUnlock demo_ext demo_db demo_unlock (Some ?good)
     = (demo_db\<lparr>auth_tokens :=
        [\<lparr>Token = ''uuid-0'', ScriptID = ''s1'', ExpiresAt = 300000001000,
          TokenCreatedAt = 1001, IpAddress = Some ''10.0.0.1:4000'',
          UserAgent = Some ''curl/8.0''\<rparr>],
        audit_log :=
        [\<lparr>Action = ''UNLOCK_SUCCESS'', EntityType = ''script'', EntityID = Some ''s1'',
          EntityPath = Some ''/private/secret.sh'', Details = None,
          AuditIpAddress = Some ''10.0.0.1:4000'', AuditUserAgent = Some ''curl/8.0'',
          AuditCreatedAt = 1002\<rparr>]\<rparr>,
      UnlockJSON ''uuid-0'' 300000001000)
    \<and> map Action (audit_log (unlocks demo_db (?tries @ [(demo_ext, demo_unlock, Some ?good)])))
        = [''UNLOCK_FAILED'', ''UNLOCK_FAILED'', ''UNLOCK_FAILED'', ''UNLOCK_SUCCESS'']
    \<and> map Token (auth_tokens (unlocks demo_db (?tries @ [(demo_ext, demo_unlock, Some ?good)])))
        = [''uuid-0'']"
    using unlock_outcomes [OF post good_found locked hash, of demo_ext ?tries] good tries
    by (simp add: demo_ext_def demo_db_def demo_script_def demo_unlock_def Get_def
          eval_nat_numeral)
  show ?thesis using first rest by simp
qed

section \<open>Folder synthesis\<close>

lemma Join_snoc: "xs \<noteq> [] \<Longrightarrow> Join (xs @ [y]) c = Join xs c @ c # y"
  by (induction xs c rule: Join.induct) auto

lemma prefixPath_Suc:
  assumes "1 \<le> i" "i < length parts"
  shows "prefixPath parts (Suc i) = prefixPath parts i @ CHR ''/'' # parts ! i"
proof -
  have "take i parts \<noteq> []" using assms by auto
  then show ?thesis
    unfolding prefixPath_def using assms
    by (simp add: take_Suc_conv_app_nth Join_snoc)
qed

lemma prefixPath_length_mono:
  assumes "1 \<le> j" "j < i" "i \<le> length parts"
  shows "length (prefixPath parts j) < length (prefixPath parts i)"
  using assms
proof (induction i)
  case 0
  then show ?case by simp
next
  case (Suc i)
  have step: "length (prefixPath parts i) < length (prefixPath parts (Suc i))"
    using Suc.prems by (subst prefixPath_Suc) auto
  show ?case
  proof (cases "j = i")
    case True
    then show ?thesis using step by simp
  next
    case False
    then have "length (prefixPath parts j) < length (prefixPath parts i)"
      using Suc by simp
    then show ?thesis using step by simp
  qed
qed

lemma prefixPath_neq:
  "1 \<le> j \<Longrightarrow> j < i \<Longrightarrow> i \<le> length parts \<Longrightarrow> prefixPath parts j \<noteq> prefixPath parts i"
  using prefixPath_length_mono by fastforce

lemma Join_append:
  "xs \<noteq> [] \<Longrightarrow> ys \<noteq> [] \<Longrightarrow> Join (xs @ ys) c = Join xs c @ c # Join ys c"
proof (induction xs c rule: Join.induct)
  case (1 sep)
  then show ?case by simp
next
  case (2 x sep)
  then show ?case by (cases ys) auto
next
  case (3 x y ys' sep)
  then show ?case by simp
qed

text \<open>
  The paths the loop looks at are the proper ancestors of the script path: each is
  followed in the script path by a slash and the remaining segments.
\<close>

lemma prefixPath_is_ancestor:
  assumes "HasPrefix scriptPath ''/''"
      and "parts = Split (TrimPrefix scriptPath ''/'') CHR ''/''"
      and "1 \<le> i" and "i < length parts"
  shows "scriptPath = prefixPath parts i @ ''/'' @ Join (drop i parts) CHR ''/''"
proof -
  obtain rest where sp: "scriptPath = ''/'' @ rest"
    using assms(1) HasPrefix_iff by blast
  have "TrimPrefix scriptPath ''/'' = rest"
    unfolding TrimPrefix_def using assms(1) sp by simp
  then have "Join parts CHR ''/'' = rest"
    unfolding assms(2) by (simp add: Join_Split)
  moreover have "take i parts \<noteq> []" "drop i parts \<noteq> []"
    using assms(3,4) by auto
  then have "Join (take i parts @ drop i parts) CHR ''/''
             = Join (take i parts) CHR ''/'' @ CHR ''/'' # Join (drop i parts) CHR ''/''"
    by (rule Join_append)
  ultimately show ?thesis
    unfolding sp prefixPath_def by simp
qed

lemma loop_done: "\<not> i < length parts \<Longrightarrow> ensureFolders_loop x parts i k db = (k, db)"
  by (subst ensureFolders_loop.simps) simp

lemma loop_found:
  "i < length parts \<Longrightarrow> GetFolderByPath db (prefixPath parts i) = Some f \<Longrightarrow>
   ensureFolders_loop x parts i k db = ensureFolders_loop x parts (Suc i) k db"
  by (subst ensureFolders_loop.simps) (simp add: prefixPath_def)

lemma loop_missing:
  assumes "i < length parts"
      and "GetFolderByPath db (prefixPath parts i) = None"
      and "NewUUID x k \<notin> FolderID ` set (folders db)"
  shows "ensureFolders_loop x parts i k db =
         ensureFolders_loop x parts (Suc i) (Suc k)
           (db\<lparr>folders := folders db @
                 [\<lparr>FolderID = NewUUID x k, FolderPath = prefixPath parts i,
                   FolderName = parts ! (i - 1), FolderCreatedAt = Now x k\<rparr>]\<rparr>)"
proof -
  have "prefixPath parts i \<notin> FolderPath ` set (folders db)"
    using assms(2) unfolding GetFolderByPath_def by (simp add: find_None_key)
  then have "\<not> list_ex (\<lambda>g. FolderID g = NewUUID x k \<or> FolderPath g = prefixPath parts i)
               (folders db)"
    using assms(3) unfolding list_ex_iff by (metis imageI)
  then have "CreateFolder db \<lparr>FolderID = NewUUID x k, FolderPath = prefixPath parts i,
                   FolderName = parts ! (i - 1), FolderCreatedAt = Now x k\<rparr>
       = Some (db\<lparr>folders := folders db @
                 [\<lparr>FolderID = NewUUID x k, FolderPath = prefixPath parts i,
                   FolderName = parts ! (i - 1), FolderCreatedAt = Now x k\<rparr>]\<rparr>)"
    unfolding CreateFolder_def by simp
  then show ?thesis
    using assms(1,2)
    by (subst ensureFolders_loop.simps) (simp add: prefixPath_def)
qed

lemma loop_spec:
  assumes "inj (NewUUID x)"
      and "\<forall>j \<ge> k. NewUUID x j \<notin> FolderID ` set (folders db)"
      and "1 \<le> i" and "i \<le> length parts"
  shows "\<exists>news. ensureFolders_loop x parts i k db
                  = (k + length news, db\<lparr>folders := folders db @ news\<rparr>)
          \<and> map FolderPath news
              = filter (\<lambda>p. p \<notin> FolderPath ` set (folders db))
                  (map (prefixPath parts) [i..<length parts])
          \<and> (\<forall>f \<in> set news. \<exists>j. i \<le> j \<and> j < length parts
                  \<and> FolderPath f = prefixPath parts j \<and> FolderName f = parts ! (j - 1))"
  using assms
proof (induction "length parts - i" arbitrary: i k db)
  case 0
  then have "\<not> i < length parts" by simp
  then show ?case by (intro exI [of _ "[]"]) (simp add: loop_done)
next
  case (Suc n)
  then have i: "i < length parts" by simp
  have range: "[i..<length parts] = i # [Suc i..<length parts]"
    using i by (simp add: upt_conv_Cons)
  show ?case
  proof (cases "GetFolderByPath db (prefixPath parts i)")
    case (Some f)
    then have inpaths: "prefixPath parts i \<in> FolderPath ` set (folders db)"
      unfolding GetFolderByPath_def using find_None_key [of FolderPath "prefixPath parts i" "folders db"]
      by auto
    have "n = length parts - Suc i" using Suc.hyps(2) by simp
    from Suc.hyps(1) [OF this Suc.prems(1,2)] i Suc.prems(3)
    obtain news where
      l: "ensureFolders_loop x parts (Suc i) k db
                  = (k + length news, db\<lparr>folders := folders db @ news\<rparr>)" and
      p: "map FolderPath news
              = filter (\<lambda>p. p \<notin> FolderPath ` set (folders db))
                  (map (prefixPath parts) [Suc i..<length parts])" and
      nm: "\<forall>f \<in> set news. \<exists>j. Suc i \<le> j \<and> j < length parts
                  \<and> FolderPath f = prefixPath parts j \<and> FolderName f = parts ! (j - 1)"
      by force
    have "ensureFolders_loop x parts i k db
            = (k + length news, db\<lparr>folders := folders db @ news\<rparr>)"
      using loop_found [OF i Some] l by simp
    moreover have "map FolderPath news
              = filter (\<lambda>p. p \<notin> FolderPath ` set (folders db))
                  (map (prefixPath parts) [i..<length parts])"
      unfolding range using p inpaths by simp
    moreover have "\<forall>f \<in> set news. \<exists>j. i \<le> j \<and> j < length parts
                  \<and> FolderPath f = prefixPath parts j \<and> FolderName f = parts ! (j - 1)"
      using nm by (meson Suc_leD)
    ultimately show ?thesis by blast
  next
    case None
    then have notin: "prefixPath parts i \<notin> FolderPath ` set (folders db)"
      unfolding GetFolderByPath_def by (simp add: find_None_key)
    define f where "f = \<lparr>FolderID = NewUUID x k, FolderPath = prefixPath parts i,
                   FolderName = parts ! (i - 1), FolderCreatedAt = Now x k\<rparr>"
    define db1 where "db1 = db\<lparr>folders := folders db @ [f]\<rparr>"
    have fresh: "NewUUID x k \<notin> FolderID ` set (folders db)"
      using Suc.prems(2) by simp
    have step: "ensureFolders_loop x parts i k db = ensureFolders_loop x parts (Suc i) (Suc k) db1"
      unfolding db1_def f_def by (rule loop_missing [OF i None fresh])
    have fresh1: "\<forall>j \<ge> Suc k. NewUUID x j \<notin> FolderID ` set (folders db1)"
    proof (intro allI impI)
      fix j assume j: "Suc k \<le> j"
      then have "NewUUID x j \<noteq> NewUUID x k"
        using Suc.prems(1) by (metis Suc_n_not_le_n injD)
      moreover have "NewUUID x j \<notin> FolderID ` set (folders db)"
        using Suc.prems(2) j by simp
      ultimately show "NewUUID x j \<notin> FolderID ` set (folders db1)"
        unfolding db1_def f_def by simp
    qed
    have "n = length parts - Suc i" using Suc.hyps(2) by simp
    from Suc.hyps(1) [OF this Suc.prems(1) fresh1] i
    obtain news where
      l: "ensureFolders_loop x parts (Suc i) (Suc k) db1
                  = (Suc k + length news, db1\<lparr>folders := folders db1 @ news\<rparr>)" and
      p: "map FolderPath news
              = filter (\<lambda>p. p \<notin> FolderPath ` set (folders db1))
                  (map (prefixPath parts) [Suc i..<length parts])" and
      nm: "\<forall>f \<in> set news. \<exists>j. Suc i \<le> j \<and> j < length parts
                  \<and> FolderPath f = prefixPath parts j \<and> FolderName f = parts ! (j - 1)"
      by force
    have later: "prefixPath parts j \<noteq> prefixPath parts i" if "j \<in> set [Suc i..<length parts]" for j
      using that Suc.prems(3) prefixPath_neq [of i j parts] by auto
    have same: "filter (\<lambda>p. p \<notin> FolderPath ` set (folders db1))
                  (map (prefixPath parts) [Suc i..<length parts])
              = filter (\<lambda>p. p \<notin> FolderPath ` set (folders db))
                  (map (prefixPath parts) [Suc i..<length parts])"
    proof (rule filter_cong [OF refl])
      fix p assume "p \<in> set (map (prefixPath parts) [Suc i..<length parts])"
      then have "p \<noteq> prefixPath parts i" using later by auto
      then show "(p \<notin> FolderPath ` set (folders db1)) = (p \<notin> FolderPath ` set (folders db))"
        unfolding db1_def f_def by auto
    qed
    have r1: "ensureFolders_loop x parts i k db
            = (k + length (f # news), db\<lparr>folders := folders db @ (f # news)\<rparr>)"
      using l unfolding step db1_def by simp
    have r2: "map FolderPath (f # news)
              = filter (\<lambda>p. p \<notin> FolderPath ` set (folders db))
                  (map (prefixPath parts) [i..<length parts])"
      unfolding range using p same notin by (simp add: f_def)
    have r3: "\<forall>g \<in> set (f # news). \<exists>j. i \<le> j \<and> j < length parts
                  \<and> FolderPath g = prefixPath parts j \<and> FolderName g = parts ! (j - 1)"
    proof
      fix g assume "g \<in> set (f # news)"
      then consider "g = f" | "g \<in> set news" by auto
      then show "\<exists>j. i \<le> j \<and> j < length parts
                  \<and> FolderPath g = prefixPath parts j \<and> FolderName g = parts ! (j - 1)"
      proof cases
        case 1
        then show ?thesis using i unfolding f_def by auto
      next
        case 2
        then show ?thesis using nm by (meson Suc_leD)
      qed
    qed
    from r1 r2 r3 show ?thesis by blast
  qed
qed

lemma loop_idle:
  assumes "\<forall>j. i \<le> j \<and> j < length parts \<longrightarrow> GetFolderByPath db (prefixPath parts j) \<noteq> None"
  shows "ensureFolders_loop x parts i k db = (k, db)"
  using assms
proof (induction "length parts - i" arbitrary: i)
  case 0
  then show ?case by (simp add: loop_done)
next
  case (Suc n)
  then have i: "i < length parts" by simp
  then obtain f where f: "GetFolderByPath db (prefixPath parts i) = Some f"
    using Suc.prems by auto
  have "n = length parts - Suc i" using Suc.hyps(2) by simp
  moreover have "\<forall>j. Suc i \<le> j \<and> j < length parts \<longrightarrow>
                   GetFolderByPath db (prefixPath parts j) \<noteq> None"
    using Suc.prems by simp
  ultimately have "ensureFolders_loop x parts (Suc i) k db = (k, db)"
    by (rule Suc.hyps(1))
  then show ?case using loop_found [OF i f] by simp
qed

text \<open>
  Claim C8. For a script path with at least one directory segment, and identifiers that
  are fresh (\<^verbatim>\<open>uuid.New\<close> never repeats one), one call of \<open>ensureFolders\<close> adds a folder
  record for exactly those proper prefixes of the path that had none, from the shallowest
  to the deepest and each named after its own last segment, and changes nothing else;
  afterwards every proper prefix has a folder record, and a second call on the same path
  leaves the database as it is.
\<close>

theorem ensureFolders_complete_idempotent:
  assumes "parts = Split (TrimPrefix scriptPath ''/'') CHR ''/''"
      and "1 < length parts"
      and "inj (NewUUID x)"
      and "\<forall>j \<ge> k. NewUUID x j \<notin> FolderID ` set (folders db)"
  shows "\<exists>news.
           ensureFolders x k db scriptPath = (k + length news, db\<lparr>folders := folders db @ news\<rparr>)
         \<and> map FolderPath news
             = filter (\<lambda>p. GetFolderByPath db p = None)
                 (map (prefixPath parts) [1..<length parts])
         \<and> (\<forall>f \<in> set news. \<exists>i. 1 \<le> i \<and> i < length parts
                \<and> FolderPath f = prefixPath parts i \<and> FolderName f = parts ! (i - 1))
         \<and> (\<forall>i. 1 \<le> i \<and> i < length parts \<longrightarrow>
                GetFolderByPath (db\<lparr>folders := folders db @ news\<rparr>) (prefixPath parts i) \<noteq> None)
         \<and> (\<forall>x2 k2. ensureFolders x2 k2 (db\<lparr>folders := folders db @ news\<rparr>) scriptPath
                      = (k2, db\<lparr>folders := folders db @ news\<rparr>))"
proof -
  have run: "ensureFolders y n d scriptPath = ensureFolders_loop y parts 1 n d" for y n d
    unfolding ensureFolders_def Let_def assms(1) [symmetric] using assms(2) by simp
  have none: "(GetFolderByPath db p = None) = (p \<notin> FolderPath ` set (folders db))" for p
    unfolding GetFolderByPath_def by (rule find_None_key)
  from loop_spec [OF assms(3,4), of 1 parts] assms(2)
  obtain news where
    l: "ensureFolders_loop x parts 1 k db = (k + length news, db\<lparr>folders := folders db @ news\<rparr>)" and
    p: "map FolderPath news
              = filter (\<lambda>p. p \<notin> FolderPath ` set (folders db))
                  (map (prefixPath parts) [1..<length parts])" and
    nm: "\<forall>f \<in> set news. \<exists>j. 1 \<le> j \<and> j < length parts
                  \<and> FolderPath f = prefixPath parts j \<and> FolderName f = parts ! (j - 1)"
    by force
  define db' where "db' = db\<lparr>folders := folders db @ news\<rparr>"
  have all: "GetFolderByPath db' (prefixPath parts i) \<noteq> None" if "1 \<le> i \<and> i < length parts" for i
  proof (cases "prefixPath parts i \<in> FolderPath ` set (folders db)")
    case True
    then show ?thesis
      unfolding GetFolderByPath_def find_None_key db'_def by auto
  next
    case False
    have "prefixPath parts i \<in> set (map (prefixPath parts) [1..<length parts])"
      using that by simp
    then have "prefixPath parts i \<in> set (map FolderPath news)"
      unfolding p using False by simp
    then show ?thesis
      unfolding GetFolderByPath_def find_None_key db'_def by auto
  qed
  then have idle: "ensureFolders x2 k2 db' scriptPath = (k2, db')" for x2 k2
    unfolding run by (intro loop_idle) simp
  have "ensureFolders x k db scriptPath = (k + length news, db')"
    unfolding run l db'_def ..
  moreover have "map FolderPath news
             = filter (\<lambda>p. GetFolderByPath db p = None)
                 (map (prefixPath parts) [1..<length parts])"
    unfolding none by (rule p)
  ultimately show ?thesis
    using nm all idle unfolding db'_def by blast
qed

theorem ensureFolders_complete_idempotent_witness:
  "ensureFolders demo_uuids 0 demo_folders_db ''/a/b/c.sh''
     = (1, demo_folders_db\<lparr>folders :=
             [\<lparr>FolderID = ''f-a'', FolderPath = ''/a'', FolderName = ''a'', FolderCreatedAt = 5\<rparr>,
              \<lparr>FolderID = ''u'', FolderPath = ''/a/b'', FolderName = ''b'',
                FolderCreatedAt = 1000\<rparr>]\<rparr>)
   \<and> (\<exists>news. map FolderPath news = [''/a/b'']
         \<and> ensureFolders demo_uuids 0 demo_folders_db ''/a/b/c.sh''
             = (0 + length news, demo_folders_db\<lparr>folders := folders demo_folders_db @ news\<rparr>)
         \<and> ensureFolders demo_uuids 7 (demo_folders_db\<lparr>folders := folders demo_folders_db @ news\<rparr>)
              ''/a/b/c.sh''
             = (7, demo_folders_db\<lparr>folders := folders demo_folders_db @ news\<rparr>))"
proof -
  have parts: "[''a'', ''b'', ''c.sh''] = Split (TrimPrefix ''/a/b/c.sh'' ''/'') CHR ''/''"
    by (simp add: TrimPrefix_def HasPrefix_def)
  have len: "1 < length [''a'', ''b'', ''c.sh'']" by simp
  have inj: "inj (NewUUID demo_uuids)" by (simp add: demo_uuids_def inj_def)
  have fresh: "\<forall>j \<ge> 0. NewUUID demo_uuids j \<notin> FolderID ` set (folders demo_folders_db)"
    by (simp add: demo_uuids_def demo_folders_db_def)
  have direct: "ensureFolders demo_uuids 0 demo_folders_db ''/a/b/c.sh''
     = (1, demo_folders_db\<lparr>folders :=
             [\<lparr>FolderID = ''f-a'', FolderPath = ''/a'', FolderName = ''a'', FolderCreatedAt = 5\<rparr>,
              \<lparr>FolderID = ''u'', FolderPath = ''/a/b'', FolderName = ''b'',
                FolderCreatedAt = 1000\<rparr>]\<rparr>)"
    by (simp add: ensureFolders_def ensureFolders_loop.simps TrimPrefix_def HasPrefix_def
          GetFolderByPath_def CreateFolder_def demo_uuids_def demo_folders_db_def)
  have paths: "filter (\<lambda>p. GetFolderByPath demo_folders_db p = None)
                 (map (prefixPath [''a'', ''b'', ''c.sh'']) [1..<length [''a'', ''b'', ''c.sh'']])
               = [''/a/b'']"
    by (simp add: prefixPath_def GetFolderByPath_def demo_folders_db_def upt_rec)
  from ensureFolders_complete_idempotent [OF parts len inj fresh]
  obtain news where
    n1: "ensureFolders demo_uuids 0 demo_folders_db ''/a/b/c.sh''
       = (0 + length news, demo_folders_db\<lparr>folders := folders demo_folders_db @ news\<rparr>)" and
    n2: "map FolderPath news = [''/a/b'']" and
    n3: "\<forall>x2 k2. ensureFolders x2 k2 (demo_folders_db\<lparr>folders := folders demo_folders_db @ news\<rparr>)
                ''/a/b/c.sh''
              = (k2, demo_folders_db\<lparr>folders := folders demo_folders_db @ news\<rparr>)"
    unfolding paths by (elim exE conjE) (rule that, assumption+)
  show ?thesis
    by (intro conjI direct exI [of _ news] n1 n2 n3 [rule_format])
qed

section \<open>Moving a script\<close>

text \<open>\<open>APIUpdateScript\<close> never writes to the folder table.\<close>

lemma APIUpdateScript_folders:
  "folders (fst (APIUpdateScript x db i body)) = folders db"
  unfolding APIUpdateScript_def Let_def UpdateScript_def CreateVersion_def CreateAuditLog_def
  by (auto split: option.splits if_splits)

text \<open>
  Claim C4. The claim asks that a script moved by \<open>APIUpdateScript\<close> has a folder record
  at every proper prefix of its new path, as a script made by \<open>APICreateScript\<close> has. The
  code does not do so: moving the script \<^verbatim>\<open>/x.sh\<close> to \<^verbatim>\<open>/a/b/c.sh\<close> in a database
  without folders succeeds and leaves the folder table empty, while creating a script at
  that path adds the folders \<^verbatim>\<open>/a\<close> and \<^verbatim>\<open>/a/b\<close>.
\<close>

theorem update_move_leaves_no_folder:
  "snd (APIUpdateScript demo_uuids move_db ''s1'' (Some move_request))
     = ScriptJSON 200
         \<lparr>RespID = ''s1'', RespPath = ''/a/b/c.sh'', RespName = ''c.sh'',
          RespContent = ''echo hi'', RespDescription = '''', RespTags = '''',
          RespLocked = False, RespDangerLevel = 0, RespRequires = '''', RespExamples = '''',
          RespFavorite = False, RespCreatedAt = 1, RespUpdatedAt = 1000\<rparr>
   \<and> map Path (scripts (fst (APIUpdateScript demo_uuids move_db ''s1'' (Some move_request))))
       = [''/a/b/c.sh'']
   \<and> folders (fst (APIUpdateScript demo_uuids move_db ''s1'' (Some move_request))) = []
   \<and> GetFolderByPath (fst (APIUpdateScript demo_uuids move_db ''s1'' (Some move_request))) ''/a''
       = None
   \<and> map FolderPath (folders (fst (APICreateScript demo_uuids
         (move_db\<lparr>scripts := []\<rparr>) (Some move_request))))
       = [''/a'', ''/a/b'']"
proof -
  have v: "validatePath ''/a/b/c.sh'' = None"
    by (simp add: validatePath_def HasPrefix_def HasSuffix_def valid_char_def)
  have n: "extractName ''/a/b/c.sh'' = ''c.sh''"
    by (simp add: extractName_def)
  have u: "APIUpdateScript demo_uuids move_db ''s1'' (Some move_request) =
     (move_db\<lparr>scripts :=
        [\<lparr>ID = ''s1'', Path = ''/a/b/c.sh'', Name = ''c.sh'', Content = ''echo hi'',
         Description = Some '''', Tags = Some '''', Locked = 0, PasswordHash = None,
         DangerLevel = Some 0, Requires = Some '''', Examples = Some '''', Favorite = 0,
         CreatedAt = 1, UpdatedAt = 1000\<rparr>],
       audit_log := [scriptAudit ''UPDATE'' ''s1'' ''/a/b/c.sh'' 1000]\<rparr>,
      ScriptJSON 200
         \<lparr>RespID = ''s1'', RespPath = ''/a/b/c.sh'', RespName = ''c.sh'',
          RespContent = ''echo hi'', RespDescription = '''', RespTags = '''',
          RespLocked = False, RespDangerLevel = 0, RespRequires = '''', RespExamples = '''',
          RespFavorite = False, RespCreatedAt = 1, RespUpdatedAt = 1000\<rparr>)"
    unfolding APIUpdateScript_def
    by (simp add: move_request_def v n move_db_def demo_uuids_def GetScript_def UpdateScript_def
          CreateAuditLog_def reread_def scriptToResponse_def orEmpty_def Let_def)
  have e: "ensureFolders demo_uuids 1 (move_db\<lparr>scripts := []\<rparr>) ''/a/b/c.sh'' =
     (3, move_db\<lparr>scripts := [], folders :=
        [\<lparr>FolderID = ''uu'', FolderPath = ''/a'', FolderName = ''a'', FolderCreatedAt = 1001\<rparr>,
         \<lparr>FolderID = ''uuu'', FolderPath = ''/a/b'', FolderName = ''b'',
           FolderCreatedAt = 1002\<rparr>]\<rparr>)"
    by (simp add: ensureFolders_def ensureFolders_loop.simps TrimPrefix_def HasPrefix_def
          GetFolderByPath_def CreateFolder_def demo_uuids_def move_db_def)
  have c: "map FolderPath (folders (fst (APICreateScript demo_uuids
         (move_db\<lparr>scripts := []\<rparr>) (Some move_request)))) = [''/a'', ''/a/b'']"
    unfolding APICreateScript_def using e
    by (simp add: move_request_def v n Let_def CreateScript_def CreateVersion_def
          CreateAuditLog_def)
  show ?thesis
    unfolding u using c by (simp add: GetFolderByPath_def move_db_def)
qed

section \<open>The tree\<close>

lemma append_child_length [simp]: "length (append_child p n h) = length h"
  by (simp add: append_child_def)

lemma append_child_Children:
  "a < length h \<Longrightarrow>
   Children (append_child p n h ! a) = Children (h ! a) @ (if a = p then [n] else [])"
  by (simp add: append_child_def nth_list_update)

lemma append_child_fields:
  "a < length h \<Longrightarrow>
   NodeID (append_child p n h ! a) = NodeID (h ! a)
   \<and> NodeName (append_child p n h ! a) = NodeName (h ! a)
   \<and> NodePath (append_child p n h ! a) = NodePath (h ! a)
   \<and> NodeType (append_child p n h ! a) = NodeType (h ! a)
   \<and> NodeLocked (append_child p n h ! a) = NodeLocked (h ! a)"
  by (cases "a = p") (simp_all add: append_child_def)

lemma build_hierarchy_length [simp]: "length (build_hierarchy m order h) = length h"
  by (induction m order h rule: build_hierarchy.induct) (auto split: option.splits)

lemma build_hierarchy_step:
  "build_hierarchy m ((p, n) # rest) h =
     (if p = ''/'' then build_hierarchy m rest h
      else build_hierarchy m rest (append_child (attach_target m p) n h))"
  by (simp add: attach_target_def split: option.splits)

lemma build_hierarchy_Children:
  "a < length h \<Longrightarrow>
   Children (build_hierarchy m order h ! a)
     = Children (h ! a)
       @ map snd (filter (\<lambda>(p, n). p \<noteq> ''/'' \<and> attach_target m p = a) order)"
proof (induction order arbitrary: h)
  case Nil
  then show ?case by simp
next
  case (Cons e order)
  obtain p n where e: "e = (p, n)" by (cases e)
  show ?case
  proof (cases "p = ''/''")
    case True
    then show ?thesis
      unfolding e build_hierarchy_step using Cons by simp
  next
    case False
    have "a < length (append_child (attach_target m p) n h)" using Cons.prems by simp
    from Cons.IH [OF this] show ?thesis
      unfolding e build_hierarchy_step using False Cons.prems
      by (simp add: append_child_Children)
  qed
qed

lemma build_hierarchy_fields:
  "a < length h \<Longrightarrow>
   NodeID (build_hierarchy m order h ! a) = NodeID (h ! a)
   \<and> NodeName (build_hierarchy m order h ! a) = NodeName (h ! a)
   \<and> NodePath (build_hierarchy m order h ! a) = NodePath (h ! a)
   \<and> NodeType (build_hierarchy m order h ! a) = NodeType (h ! a)
   \<and> NodeLocked (build_hierarchy m order h ! a) = NodeLocked (h ! a)"
proof (induction order arbitrary: h)
  case Nil
  then show ?case by simp
next
  case (Cons e order)
  obtain p n where e: "e = (p, n)" by (cases e)
  show ?case
  proof (cases "p = ''/''")
    case True
    then show ?thesis
      unfolding e build_hierarchy_step using Cons by simp
  next
    case False
    have "a < length (append_child (attach_target m p) n h)" using Cons.prems by simp
    from Cons.IH [OF this] show ?thesis
      unfolding e build_hierarchy_step using False Cons.prems
      by (simp add: append_child_fields)
  qed
qed

lemma put_keys: "fst ` set (put k v m) = insert k (fst ` set m)"
proof (induction m)
  case Nil
  then show ?case by simp
next
  case (Cons e m)
  obtain k' v' where e: "e = (k', v')" by (cases e)
  show ?case unfolding e using Cons.IH by (cases "k' = k") auto
qed

lemma put_values: "snd ` set (put k v m) \<subseteq> insert v (snd ` set m)"
proof (induction m)
  case Nil
  then show ?case by simp
next
  case (Cons e m)
  obtain k' v' where e: "e = (k', v')" by (cases e)
  show ?case unfolding e using Cons.IH by (cases "k' = k") auto
qed

lemma put_distinct_keys: "distinct (map fst m) \<Longrightarrow> distinct (map fst (put k v m))"
proof (induction m)
  case Nil
  then show ?case by simp
next
  case (Cons e m)
  obtain k' v' where e: "e = (k', v')" by (cases e)
  show ?case
  proof (cases "k' = k")
    case True
    then show ?thesis using Cons.prems unfolding e by simp
  next
    case False
    have "k' \<notin> fst ` set (put k v m)"
      unfolding put_keys using Cons.prems False unfolding e by auto
    then show ?thesis using Cons False unfolding e by simp
  qed
qed

lemma put_distinct_values:
  "distinct (map snd m) \<Longrightarrow> v \<notin> snd ` set m \<Longrightarrow> distinct (map snd (put k v m))"
proof (induction m)
  case Nil
  then show ?case by simp
next
  case (Cons e m)
  obtain k' v' where e: "e = (k', v')" by (cases e)
  show ?case
  proof (cases "k' = k")
    case True
    then show ?thesis using Cons.prems unfolding e by auto
  next
    case False
    have "v' \<notin> snd ` set (put k v m)"
      using put_values [of k v m] Cons.prems unfolding e by auto
    then show ?thesis using Cons False unfolding e by simp
  qed
qed

text \<open>What the hierarchy loop relies on: a store and a map that fit together.\<close>

lemma add_nodes_append: "add_nodes (xs @ ys) s = add_nodes ys (add_nodes xs s)"
  by (induction xs s rule: add_nodes.induct) auto

lemma add_folders_nodes:
  "add_folders fs s = add_nodes (map (\<lambda>f. (FolderPath f, folderNode f)) fs) s"
  by (induction fs s rule: add_folders.induct) auto

lemma add_scripts_nodes:
  "add_scripts scs s = add_nodes (map (\<lambda>sc. (Path sc, scriptNode sc)) scs) s"
  by (induction scs s rule: add_scripts.induct) auto

lemma tree_state:
  "add_scripts scs (add_folders fs s) = add_nodes (tree_nodes scs fs) s"
  unfolding tree_nodes_def add_nodes_append add_folders_nodes add_scripts_nodes ..

lemma add_nodes_heap: "fst (add_nodes kns (h, m)) = h @ map snd kns"
  by (induction kns "(h, m)" arbitrary: h m rule: add_nodes.induct) auto

lemma add_nodes_keys: "fst ` set (snd (add_nodes kns (h, m))) = fst ` set m \<union> fst ` set kns"
  by (induction kns "(h, m)" arbitrary: h m rule: add_nodes.induct) (auto simp: put_keys)

lemma add_nodes_inv:
  assumes "distinct (map fst m)" "distinct (map snd m)" "\<forall>a \<in> snd ` set m. a < length h"
  shows "distinct (map fst (snd (add_nodes kns (h, m))))
       \<and> distinct (map snd (snd (add_nodes kns (h, m))))
       \<and> (\<forall>a \<in> snd ` set (snd (add_nodes kns (h, m))). a < length h + length kns)"
  using assms
proof (induction kns arbitrary: h m)
  case Nil
  then show ?case by simp
next
  case (Cons e kns)
  obtain p node where e: "e = (p, node)" by (cases e)
  have fresh: "length h \<notin> snd ` set m" using Cons.prems(3) by auto
  have 1: "distinct (map fst (put p (length h) m))"
    using Cons.prems(1) by (rule put_distinct_keys)
  have 2: "distinct (map snd (put p (length h) m))"
    using Cons.prems(2) fresh by (rule put_distinct_values)
  have 3: "\<forall>a \<in> snd ` set (put p (length h) m). a < length (h @ [node])"
    using put_values [of p "length h" m] Cons.prems(3) by fastforce
  from Cons.IH [OF 1 2 3] show ?case unfolding e by simp
qed

lemma tree_nodeMap_eq:
  "tree_nodeMap scs fs = snd (add_nodes (tree_nodes scs fs) ([rootNode], [(''/'', 0)]))"
  unfolding tree_nodeMap_def tree_state ..

lemma buildTree_eq:
  "buildTree scs fs order =
     build_hierarchy (tree_nodeMap scs fs) order (rootNode # map snd (tree_nodes scs fs))"
proof -
  have "fst (add_nodes (tree_nodes scs fs) ([rootNode], [(''/'', 0)]))
          = rootNode # map snd (tree_nodes scs fs)"
    by (simp add: add_nodes_heap)
  then show ?thesis
    unfolding buildTree_def tree_state tree_nodeMap_eq
    by (simp add: case_prod_beta)
qed

lemma buildTree_length: "length (buildTree scs fs order) = 1 + length fs + length scs"
  unfolding buildTree_eq by (simp add: tree_nodes_def)

lemma tree_nodeMap_inv:
  "distinct (map fst (tree_nodeMap scs fs))
   \<and> distinct (map snd (tree_nodeMap scs fs))
   \<and> (\<forall>a \<in> snd ` set (tree_nodeMap scs fs). a < 1 + length fs + length scs)"
proof -
  have "distinct (map fst [(''/'', 0::nat)])" "distinct (map snd [(''/'', 0::nat)])"
    "\<forall>a \<in> snd ` set [(''/'', 0::nat)]. a < length [rootNode]"
    by simp_all
  from add_nodes_inv [OF this, of "tree_nodes scs fs"]
  show ?thesis unfolding tree_nodeMap_eq by (simp add: tree_nodes_def add.commute add.left_commute)
qed

lemma tree_nodeMap_keys:
  "fst ` set (tree_nodeMap scs fs) = {''/''} \<union> FolderPath ` set fs \<union> Path ` set scs"
  unfolding tree_nodeMap_eq add_nodes_keys tree_nodes_def
  by (simp add: image_Un image_image Un_assoc)

lemma buildTree_node:
  assumes "a < 1 + length fs + length scs"
  shows "NodeID (buildTree scs fs order ! a) = NodeID ((rootNode # map snd (tree_nodes scs fs)) ! a)
   \<and> NodeName (buildTree scs fs order ! a) = NodeName ((rootNode # map snd (tree_nodes scs fs)) ! a)
   \<and> NodePath (buildTree scs fs order ! a) = NodePath ((rootNode # map snd (tree_nodes scs fs)) ! a)
   \<and> NodeType (buildTree scs fs order ! a) = NodeType ((rootNode # map snd (tree_nodes scs fs)) ! a)
   \<and> NodeLocked (buildTree scs fs order ! a)
       = NodeLocked ((rootNode # map snd (tree_nodes scs fs)) ! a)"
  unfolding buildTree_eq
  using assms by (intro build_hierarchy_fields) (simp add: tree_nodes_def)

lemma buildTree_Children:
  assumes "a < 1 + length fs + length scs"
  shows "Children (buildTree scs fs order ! a)
     = map snd (filter (\<lambda>(p, n). p \<noteq> ''/'' \<and> attach_target (tree_nodeMap scs fs) p = a) order)"
proof -
  let ?h = "rootNode # map snd (tree_nodes scs fs)"
  have a: "a < length ?h" using assms by (simp add: tree_nodes_def)
  have "\<forall>n \<in> set ?h. Children n = []"
    by (auto simp: tree_nodes_def rootNode_def folderNode_def scriptNode_def)
  then have "Children (?h ! a) = []" using a nth_mem by blast
  then show ?thesis
    unfolding buildTree_eq build_hierarchy_Children [OF a] by simp
qed

lemma attach_target_bound:
  "attach_target (tree_nodeMap scs fs) p < 1 + length fs + length scs"
proof (cases "map_of (tree_nodeMap scs fs) (getParentPath p)")
  case None
  then show ?thesis by (simp add: attach_target_def)
next
  case (Some par)
  then have "par \<in> snd ` set (tree_nodeMap scs fs)"
    by (metis image_eqI map_of_SomeD snd_conv)
  then have "par < 1 + length fs + length scs"
    using tree_nodeMap_inv [of scs fs] by blast
  then show ?thesis using Some by (simp add: attach_target_def)
qed

lemma ranges_over_values:
  assumes "ranges_over order (tree_nodeMap scs fs)"
  shows "distinct (map snd order)"
proof -
  have "inj_on snd (set (tree_nodeMap scs fs))"
    using tree_nodeMap_inv [of scs fs] by (simp add: distinct_map)
  then show ?thesis
    using assms unfolding ranges_over_def by (simp add: distinct_map)
qed

lemma distinct_set_one: "distinct xs \<Longrightarrow> set xs = {a} \<Longrightarrow> xs = [a]"
proof -
  assume d: "distinct xs" and s: "set xs = {a}"
  then have "card (set xs) = 1" by simp
  then have "length xs = 1" using d by (simp add: distinct_card)
  then obtain y where "xs = [y]" by (cases xs) auto
  then show ?thesis using s by auto
qed

lemma distinct_set_two:
  "distinct xs \<Longrightarrow> set xs = {a, b} \<Longrightarrow> a \<noteq> b \<Longrightarrow> xs = [a, b] \<or> xs = [b, a]"
proof -
  assume d: "distinct xs" and s: "set xs = {a, b}" and n: "a \<noteq> b"
  then have "card (set xs) = 2" by simp
  then have "length xs = 2" using d by (simp add: distinct_card)
  then obtain y z where xs: "xs = [y, z]"
    by (cases xs; cases "tl xs") auto
  then have "{y, z} = {a, b}" using s by simp
  then show ?thesis unfolding xs by (auto simp: doubleton_eq_iff)
qed

lemma filter_ranges_over:
  assumes "ranges_over order m"
  shows "distinct (filter P order) \<and> set (filter P order) = set (filter P m)"
  using assms unfolding ranges_over_def by simp

lemma tree_example_state:
  "add_scripts tree_scripts (add_folders tree_folders ([rootNode], [(''/'', 0)])) =
     ([rootNode,
       folderNode (tree_folders ! 0), folderNode (tree_folders ! 1),
       scriptNode (tree_scripts ! 0), scriptNode (tree_scripts ! 1)],
      [(''/'', 0), (''/a'', 1), (''/a/b'', 2), (''/a/b/c.sh'', 3), (''/x.sh'', 4)])"
  by (simp add: tree_scripts_def tree_folders_def tree_script_def)

lemma tree_example_nodeMap:
  "tree_nodeMap tree_scripts tree_folders
     = [(''/'', 0), (''/a'', 1), (''/a/b'', 2), (''/a/b/c.sh'', 3), (''/x.sh'', 4)]"
  unfolding tree_nodeMap_def tree_example_state by simp

lemma tree_example_targets:
  "attach_target [(''/'', 0), (''/a'', 1), (''/a/b'', 2), (''/a/b/c.sh'', 3), (''/x.sh'', 4)] ''/a'' = 0"
  "attach_target [(''/'', 0), (''/a'', 1), (''/a/b'', 2), (''/a/b/c.sh'', 3), (''/x.sh'', 4)] ''/a/b'' = 1"
  "attach_target [(''/'', 0), (''/a'', 1), (''/a/b'', 2), (''/a/b/c.sh'', 3), (''/x.sh'', 4)] ''/a/b/c.sh'' = 2"
  "attach_target [(''/'', 0), (''/a'', 1), (''/a/b'', 2), (''/a/b/c.sh'', 3), (''/x.sh'', 4)] ''/x.sh'' = 0"
  by (simp_all add: attach_target_def getParentPath_def TrimPrefix_def HasPrefix_def)

lemma tree_example:
  assumes "ranges_over order (tree_nodeMap tree_scripts tree_folders)"
  shows "\<exists>cs. encode 5 (buildTree tree_scripts tree_folders order) 0
                = Some (Tree ''root'' ''/'' ''/'' ''folder'' False cs)
          \<and> length cs = 2
          \<and> set cs =
              {Tree ''fa'' ''a'' ''/a'' ''folder'' False
                 [Tree ''fb'' ''b'' ''/a/b'' ''folder'' False
                    [Tree ''s1'' ''c.sh'' ''/a/b/c.sh'' ''script'' False []]],
               Tree ''s2'' ''x.sh'' ''/x.sh'' ''script'' False []}"
proof -
  let ?m = "[(''/'', 0::nat), (''/a'', 1), (''/a/b'', 2), (''/a/b/c.sh'', 3), (''/x.sh'', 4)]"
  define h where "h = buildTree tree_scripts tree_folders order"
  have ro: "ranges_over order ?m" using assms unfolding tree_example_nodeMap .
  have len: "length tree_folders = 2" "length tree_scripts = 2"
    by (simp_all add: tree_folders_def tree_scripts_def)
  define t where "t = attach_target ?m"
  have t: "t ''/a'' = 0" "t ''/a/b'' = 1" "t ''/a/b/c.sh'' = 2" "t ''/x.sh'' = 0"
    unfolding t_def by (rule tree_example_targets)+
  have ch: "Children (h ! b)
     = map snd (filter (\<lambda>(p, n). p \<noteq> ''/'' \<and> t p = b) order)"
    if "b < 5" for b
    unfolding h_def t_def using buildTree_Children [of b tree_folders tree_scripts order] that
    unfolding tree_example_nodeMap len by simp
  have c1: "Children (h ! 1) = [2]"
  proof -
    have "filter (\<lambda>(p, n). p \<noteq> ''/'' \<and> t p = 1) order = [(''/a/b'', 2)]"
      using filter_ranges_over [OF ro, of "\<lambda>(p, n). p \<noteq> ''/'' \<and> t p = 1"]
      by (intro distinct_set_one) (simp_all add: t)
    then show ?thesis using ch [of 1] by simp
  qed
  have c2: "Children (h ! 2) = [3]"
  proof -
    have "filter (\<lambda>(p, n). p \<noteq> ''/'' \<and> t p = 2) order = [(''/a/b/c.sh'', 3)]"
      using filter_ranges_over [OF ro, of "\<lambda>(p, n). p \<noteq> ''/'' \<and> t p = 2"]
      by (intro distinct_set_one) (simp_all add: t)
    then show ?thesis using ch [of 2] by simp
  qed
  have c3: "Children (h ! 3) = []"
  proof -
    have "set (filter (\<lambda>(p, n). p \<noteq> ''/'' \<and> t p = 3) order)
            = set (filter (\<lambda>(p, n). p \<noteq> ''/'' \<and> t p = 3) ?m)"
      using filter_ranges_over [OF ro] by blast
    also have "filter (\<lambda>(p, n). p \<noteq> ''/'' \<and> t p = 3) ?m = []"
      by (simp add: t)
    finally have "filter (\<lambda>(p, n). p \<noteq> ''/'' \<and> t p = 3) order = []"
      by (simp only: set_empty list.set)
    then show ?thesis using ch [of 3] by simp
  qed
  have c4: "Children (h ! 4) = []"
  proof -
    have "set (filter (\<lambda>(p, n). p \<noteq> ''/'' \<and> t p = 4) order)
            = set (filter (\<lambda>(p, n). p \<noteq> ''/'' \<and> t p = 4) ?m)"
      using filter_ranges_over [OF ro] by blast
    also have "filter (\<lambda>(p, n). p \<noteq> ''/'' \<and> t p = 4) ?m = []"
      by (simp add: t)
    finally have "filter (\<lambda>(p, n). p \<noteq> ''/'' \<and> t p = 4) order = []"
      by (simp only: set_empty list.set)
    then show ?thesis using ch [of 4] by simp
  qed
  have c0: "Children (h ! 0) = [1, 4] \<or> Children (h ! 0) = [4, 1]"
  proof -
    have "filter (\<lambda>(p, n). p \<noteq> ''/'' \<and> t p = 0) order = [(''/a'', 1), (''/x.sh'', 4)]
        \<or> filter (\<lambda>(p, n). p \<noteq> ''/'' \<and> t p = 0) order = [(''/x.sh'', 4), (''/a'', 1)]"
      using filter_ranges_over [OF ro, of "\<lambda>(p, n). p \<noteq> ''/'' \<and> t p = 0"]
      by (intro distinct_set_two) (simp_all add: t)
    then show ?thesis using ch [of 0] by auto
  qed
  have node: "NodeID (h ! a) = NodeID ((rootNode # map snd (tree_nodes tree_scripts tree_folders)) ! a)
   \<and> NodeName (h ! a) = NodeName ((rootNode # map snd (tree_nodes tree_scripts tree_folders)) ! a)
   \<and> NodePath (h ! a) = NodePath ((rootNode # map snd (tree_nodes tree_scripts tree_folders)) ! a)
   \<and> NodeType (h ! a) = NodeType ((rootNode # map snd (tree_nodes tree_scripts tree_folders)) ! a)
   \<and> NodeLocked (h ! a)
       = NodeLocked ((rootNode # map snd (tree_nodes tree_scripts tree_folders)) ! a)"
    if "a < 5" for a
    unfolding h_def using buildTree_node [of a tree_folders tree_scripts order] that
    unfolding len by simp
  have heap: "rootNode # map snd (tree_nodes tree_scripts tree_folders)
      = [rootNode,
         \<lparr>NodeID = ''fa'', NodeName = ''a'', NodePath = ''/a'', NodeType = ''folder'',
          NodeLocked = False, Children = []\<rparr>,
         \<lparr>NodeID = ''fb'', NodeName = ''b'', NodePath = ''/a/b'', NodeType = ''folder'',
          NodeLocked = False, Children = []\<rparr>,
         \<lparr>NodeID = ''s1'', NodeName = ''c.sh'', NodePath = ''/a/b/c.sh'', NodeType = ''script'',
          NodeLocked = False, Children = []\<rparr>,
         \<lparr>NodeID = ''s2'', NodeName = ''x.sh'', NodePath = ''/x.sh'', NodeType = ''script'',
          NodeLocked = False, Children = []\<rparr>]"
    by (simp add: tree_nodes_def tree_folders_def tree_scripts_def tree_script_def
          folderNode_def scriptNode_def)
  have five: "(5::nat) = Suc (Suc (Suc (Suc (Suc 0))))" by simp
  from c0 show ?thesis
  proof
    assume "Children (h ! 0) = [1, 4]"
    then have "encode 5 h 0 = Some (Tree ''root'' ''/'' ''/'' ''folder'' False
         [Tree ''fa'' ''a'' ''/a'' ''folder'' False
                 [Tree ''fb'' ''b'' ''/a/b'' ''folder'' False
                    [Tree ''s1'' ''c.sh'' ''/a/b/c.sh'' ''script'' False []]],
          Tree ''s2'' ''x.sh'' ''/x.sh'' ''script'' False []])"
      unfolding five
      using c1 c2 c3 c4 node [of 0] node [of 1] node [of 2] node [of 3] node [of 4]
      unfolding heap by (simp add: rootNode_def)
    then show ?thesis unfolding h_def by simp
  next
    assume "Children (h ! 0) = [4, 1]"
    then have "encode 5 h 0 = Some (Tree ''root'' ''/'' ''/'' ''folder'' False
         [Tree ''s2'' ''x.sh'' ''/x.sh'' ''script'' False [],
          Tree ''fa'' ''a'' ''/a'' ''folder'' False
                 [Tree ''fb'' ''b'' ''/a/b'' ''folder'' False
                    [Tree ''s1'' ''c.sh'' ''/a/b/c.sh'' ''script'' False []]]])"
      unfolding five
      using c1 c2 c3 c4 node [of 0] node [of 1] node [of 2] node [of 3] node [of 4]
      unfolding heap by (simp add: rootNode_def)
    then show ?thesis unfolding h_def by auto
  qed
qed

lemma tree_example_lists:
  "ListScripts tree_db = tree_scripts" "ListFolders tree_db = tree_folders"
  by (simp_all add: ListScripts_def ListFolders_def tree_db_def tree_scripts_def
        tree_script_def tree_folders_def)

text \<open>The map when no two nodes share a path: the node of address \<open>a\<close> is registered
  under its own path, and under no other.\<close>

lemma put_fresh: "k \<notin> fst ` set m \<Longrightarrow> put k v m = m @ [(k, v)]"
  by (induction m) auto

lemma add_nodes_fresh:
  "distinct (map fst m @ map fst kns) \<Longrightarrow>
   snd (add_nodes kns (h, m)) = m @ zip (map fst kns) [length h..<length h + length kns]"
proof (induction kns arbitrary: h m)
  case Nil
  then show ?case by simp
next
  case (Cons e kns)
  obtain p node where e: "e = (p, node)" by (cases e)
  have fresh: "p \<notin> fst ` set m" using Cons.prems unfolding e by auto
  have d: "distinct (map fst (m @ [(p, length h)]) @ map fst kns)"
    using Cons.prems unfolding e by auto
  have u: "[length h..<length h + Suc (length kns)]
             = length h # [Suc (length h)..<Suc (length h) + length kns]"
    using upt_conv_Cons [of "length h" "length h + Suc (length kns)"] by simp
  have "snd (add_nodes kns (h @ [node], m @ [(p, length h)]))
          = (m @ [(p, length h)])
            @ zip (map fst kns) [Suc (length h)..<Suc (length h) + length kns]"
    using Cons.IH [OF d, of "h @ [node]"] by simp
  then show ?case
    unfolding e add_nodes.simps put_fresh [OF fresh] list.map fst_conv list.size
    using u by simp
qed

lemma tree_paths_length: "length (tree_paths scs fs) = 1 + length fs + length scs"
  by (simp add: tree_paths_def)

lemma tree_paths_nodes: "tree_paths scs fs = ''/'' # map fst (tree_nodes scs fs)"
  by (simp add: tree_paths_def tree_nodes_def comp_def)

lemma tree_nodeMap_zip:
  assumes "distinct (tree_paths scs fs)"
  shows "tree_nodeMap scs fs = zip (tree_paths scs fs) [0..<length (tree_paths scs fs)]"
proof -
  let ?kns = "tree_nodes scs fs"
  have d: "distinct (map fst [(''/'', 0::nat)] @ map fst ?kns)"
    using assms unfolding tree_paths_nodes by simp
  have u: "[0..<Suc (length ?kns)] = 0 # [Suc 0..<Suc (length ?kns)]"
    using upt_conv_Cons [of 0 "Suc (length ?kns)"] by simp
  have "snd (add_nodes ?kns ([rootNode], [(''/'', 0)]))
          = (''/'', 0) # zip (map fst ?kns) [Suc 0..<Suc (length ?kns)]"
    using add_nodes_fresh [OF d, of "[rootNode]"] by simp
  also have "\<dots> = zip (''/'' # map fst ?kns) [0..<Suc (length ?kns)]"
    unfolding u by simp
  finally show ?thesis
    unfolding tree_nodeMap_eq tree_paths_nodes by simp
qed

lemma tree_nodeMap_lookup:
  assumes "distinct (tree_paths scs fs)" "a < length (tree_paths scs fs)"
  shows "map_of (tree_nodeMap scs fs) (tree_paths scs fs ! a) = Some a"
  unfolding tree_nodeMap_zip [OF assms(1)]
  using map_of_zip_nth [of "tree_paths scs fs" "[0..<length (tree_paths scs fs)]" a] assms
  by simp

lemma tree_nodeMap_entries:
  assumes "distinct (tree_paths scs fs)"
  shows "(p, a) \<in> set (tree_nodeMap scs fs)
         \<longleftrightarrow> a < length (tree_paths scs fs) \<and> p = tree_paths scs fs ! a"
  unfolding tree_nodeMap_zip [OF assms] by (auto simp: set_zip)

lemma tree_nodeMap_Some:
  assumes "distinct (tree_paths scs fs)" "map_of (tree_nodeMap scs fs) k = Some a"
  shows "a < length (tree_paths scs fs) \<and> tree_paths scs fs ! a = k"
proof -
  have "(k, a) \<in> set (tree_nodeMap scs fs)" using assms(2) by (rule map_of_SomeD)
  then show ?thesis unfolding tree_nodeMap_entries [OF assms(1)] by simp
qed

lemma tree_nodeMap_None:
  assumes "k \<notin> set (tree_paths scs fs)"
  shows "map_of (tree_nodeMap scs fs) k = None"
proof -
  have "k \<notin> fst ` set (tree_nodeMap scs fs)"
    using assms unfolding tree_nodeMap_keys tree_paths_def by auto
  then show ?thesis by (simp add: map_of_eq_None_iff)
qed

lemma tree_paths_root:
  assumes "distinct (tree_paths scs fs)" "a < length (tree_paths scs fs)"
  shows "tree_paths scs fs ! a = ''/'' \<longleftrightarrow> a = 0"
proof
  assume "tree_paths scs fs ! a = ''/''"
  then have "tree_paths scs fs ! a = tree_paths scs fs ! 0" by (simp add: tree_paths_def)
  moreover have "0 < length (tree_paths scs fs)" by (simp add: tree_paths_def)
  ultimately show "a = 0" using assms nth_eq_iff_index_eq by blast
next
  assume "a = 0" then show "tree_paths scs fs ! a = ''/''" by (simp add: tree_paths_def)
qed

lemma buildTree_path:
  assumes "a < length (tree_paths scs fs)"
  shows "NodePath (buildTree scs fs order ! a) = tree_paths scs fs ! a"
proof -
  have a: "a < 1 + length fs + length scs" using assms by (simp add: tree_paths_def)
  have "NodePath ((rootNode # map snd (tree_nodes scs fs)) ! a) = tree_paths scs fs ! a"
  proof (cases a)
    case 0
    then show ?thesis by (simp add: rootNode_def tree_paths_def)
  next
    case (Suc i)
    have i: "i < length (tree_nodes scs fs)" using a Suc by (simp add: tree_nodes_def)
    have "\<forall>e \<in> set (tree_nodes scs fs). NodePath (snd e) = fst e"
      by (auto simp: tree_nodes_def folderNode_def scriptNode_def)
    then have "NodePath (snd (tree_nodes scs fs ! i)) = fst (tree_nodes scs fs ! i)"
      using i nth_mem by blast
    then show ?thesis unfolding Suc tree_paths_nodes using i by simp
  qed
  then show ?thesis using buildTree_node [OF a, of order] by simp
qed

text \<open>Parent paths and ancestor prefixes.\<close>

lemma Split_no_sep: "c \<notin> set x \<Longrightarrow> Split x c = [x]"
  by (induction x) auto

lemma Split_append_sep: "c \<notin> set x \<Longrightarrow> Split (x @ c # rest) c = x # Split rest c"
  by (induction x) auto

lemma Split_Join:
  "xs \<noteq> [] \<Longrightarrow> \<forall>x \<in> set xs. c \<notin> set x \<Longrightarrow> Split (Join xs c) c = xs"
proof (induction xs c rule: Join.induct)
  case (1 sep)
  then show ?case by simp
next
  case (2 x sep)
  then show ?case by (simp add: Split_no_sep)
next
  case (3 x y ys sep)
  have "Split (Join (y # ys) sep) sep = y # ys" using 3 by simp
  then show ?case using 3(3) by (simp add: Split_append_sep)
qed

lemma TrimPrefix_slash: "TrimPrefix (''/'' @ x) ''/'' = x"
  by (simp add: TrimPrefix_def HasPrefix_def)

lemma nparts_pos: "0 < nparts p"
  using Split_not_empty [of "TrimPrefix p ''/''" "CHR ''/''"] by (simp add: nparts_def)

lemma Split_prefixPath:
  assumes "parts = Split s CHR ''/''" "1 \<le> i" "i \<le> length parts"
  shows "Split (TrimPrefix (prefixPath parts i) ''/'') CHR ''/'' = take i parts"
proof -
  have ne: "take i parts \<noteq> []" using assms(2,3) by auto
  have "\<forall>x \<in> set (take i parts). CHR ''/'' \<notin> set x"
    using Split_fields [of _ s "CHR ''/''"] in_set_takeD [of _ i parts] unfolding assms(1)
    by blast
  then show ?thesis
    unfolding prefixPath_def TrimPrefix_slash using ne by (rule Split_Join [rotated])
qed

lemma nparts_prefixPath:
  assumes "parts = Split s CHR ''/''" "1 \<le> i" "i \<le> length parts"
  shows "nparts (prefixPath parts i) = i"
  unfolding nparts_def Split_prefixPath [OF assms] using assms(3) by simp

lemma getParentPath_parts:
  assumes "parts = Split (TrimPrefix p ''/'') CHR ''/''" "p \<noteq> ''/''"
  shows "getParentPath p
           = (if length parts \<le> 1 then ''/'' else prefixPath parts (length parts - 1))"
  using assms by (simp add: getParentPath_def prefixPath_def Let_def)

lemma prefixPath_root:
  assumes "2 \<le> i" "i \<le> length parts"
  shows "prefixPath parts i \<noteq> ''/''"
proof -
  have "length (take i parts) = i" using assms by simp
  then have "2 \<le> length (take i parts)" using assms by simp
  then obtain x y rest where t: "take i parts = x # y # rest"
    by (cases "take i parts"; cases "tl (take i parts)") auto
  show ?thesis unfolding prefixPath_def t by simp
qed

lemma getParentPath_prefixPath:
  assumes "parts = Split s CHR ''/''" "1 \<le> i" "i \<le> length parts"
  shows "getParentPath (prefixPath parts i)
           = (if i = 1 then ''/'' else prefixPath parts (i - 1))"
proof (cases "prefixPath parts i = ''/''")
  case True
  then have "i = 1" using prefixPath_root [of i parts] assms(2,3) by (cases "i = 1") auto
  then show ?thesis using True by (simp add: getParentPath_def)
next
  case False
  have len: "length (take i parts) = i" using assms(3) by simp
  have tt: "take (i - 1) (take i parts) = take (i - 1) parts" by (simp add: min_def)
  show ?thesis
    using getParentPath_parts [OF Split_prefixPath [OF assms, symmetric] False]
    unfolding len by (simp add: prefixPath_def tt)
qed

lemma getParentPath_nparts:
  assumes "getParentPath p \<noteq> ''/''"
  shows "nparts (getParentPath p) + 1 = nparts p"
proof -
  define parts where "parts = Split (TrimPrefix p ''/'') CHR ''/''"
  have p: "p \<noteq> ''/''" using assms by (auto simp: getParentPath_def)
  have g: "getParentPath p
           = (if length parts \<le> 1 then ''/'' else prefixPath parts (length parts - 1))"
    using getParentPath_parts [OF parts_def p] .
  then have l: "1 < length parts" using assms by (cases "length parts \<le> 1") auto
  have "nparts (prefixPath parts (length parts - 1)) = length parts - 1"
    using l by (intro nparts_prefixPath [OF parts_def]) auto
  then show ?thesis using g l unfolding nparts_def parts_def [symmetric] by simp
qed

text \<open>The children of a node when no two nodes share a path.\<close>

lemma attach_target_Some:
  assumes "distinct (tree_paths scs fs)" "a < length (tree_paths scs fs)"
      and "getParentPath p = tree_paths scs fs ! a"
  shows "attach_target (tree_nodeMap scs fs) p = a"
  unfolding attach_target_def assms(3) tree_nodeMap_lookup [OF assms(1,2)] by simp

lemma attach_target_None:
  assumes "getParentPath p \<notin> set (tree_paths scs fs)"
  shows "attach_target (tree_nodeMap scs fs) p = 0"
  unfolding attach_target_def tree_nodeMap_None [OF assms] by simp

lemma attach_target_parent:
  assumes "distinct (tree_paths scs fs)" "attach_target (tree_nodeMap scs fs) p = a" "a \<noteq> 0"
  shows "a < length (tree_paths scs fs) \<and> tree_paths scs fs ! a = getParentPath p"
proof (cases "map_of (tree_nodeMap scs fs) (getParentPath p)")
  case None
  then show ?thesis using assms(2,3) by (simp add: attach_target_def)
next
  case (Some a')
  then have "a' = a" using assms(2) by (simp add: attach_target_def)
  then show ?thesis using tree_nodeMap_Some [OF assms(1) Some] by simp
qed

lemma buildTree_children_iff:
  assumes "distinct (tree_paths scs fs)" "ranges_over order (tree_nodeMap scs fs)"
      and "a < length (tree_paths scs fs)"
  shows "b \<in> set (Children (buildTree scs fs order ! a))
         \<longleftrightarrow> 0 < b \<and> b < length (tree_paths scs fs)
             \<and> attach_target (tree_nodeMap scs fs) (tree_paths scs fs ! b) = a"
proof -
  let ?P = "tree_paths scs fs"
  let ?m = "tree_nodeMap scs fs"
  have a: "a < 1 + length fs + length scs" using assms(3) by (simp add: tree_paths_def)
  have so: "set order = set ?m" using assms(2) by (simp add: ranges_over_def)
  have "b \<in> set (Children (buildTree scs fs order ! a))
        \<longleftrightarrow> (\<exists>p. (p, b) \<in> set ?m \<and> p \<noteq> ''/'' \<and> attach_target ?m p = a)"
    unfolding buildTree_Children [OF a] using so by force
  also have "\<dots> \<longleftrightarrow> b < length ?P \<and> ?P ! b \<noteq> ''/'' \<and> attach_target ?m (?P ! b) = a"
    unfolding tree_nodeMap_entries [OF assms(1)] by blast
  also have "\<dots> \<longleftrightarrow> 0 < b \<and> b < length ?P \<and> attach_target ?m (?P ! b) = a"
    using tree_paths_root [OF assms(1), of b] by auto
  finally show ?thesis .
qed

lemma buildTree_children_distinct:
  assumes "ranges_over order (tree_nodeMap scs fs)" "a < length (tree_paths scs fs)"
  shows "distinct (Children (buildTree scs fs order ! a))"
proof -
  have a: "a < 1 + length fs + length scs" using assms(2) by (simp add: tree_paths_def)
  show ?thesis
    unfolding buildTree_Children [OF a]
    using ranges_over_values [OF assms(1)] by (rule distinct_map_filter)
qed

lemma child_level:
  assumes "distinct (tree_paths scs fs)" "ranges_over order (tree_nodeMap scs fs)"
      and "a < length (tree_paths scs fs)"
      and "b \<in> set (Children (buildTree scs fs order ! a))"
  shows "b < length (tree_paths scs fs) \<and> level (tree_paths scs fs) a < level (tree_paths scs fs) b"
proof -
  let ?P = "tree_paths scs fs"
  have b: "0 < b" "b < length ?P" "attach_target (tree_nodeMap scs fs) (?P ! b) = a"
    using assms(4) unfolding buildTree_children_iff [OF assms(1,2,3)] by simp_all
  show ?thesis
  proof (cases "a = 0")
    case True
    then show ?thesis using b nparts_pos [of "?P ! b"] by (simp add: level_def)
  next
    case False
    have pa: "?P ! a = getParentPath (?P ! b)"
      using attach_target_parent [OF assms(1) b(3) False] by simp
    have "?P ! a \<noteq> ''/''" using tree_paths_root [OF assms(1,3)] False by simp
    then have "nparts (?P ! a) + 1 = nparts (?P ! b)"
      unfolding pa by (rule getParentPath_nparts)
    then show ?thesis using b False by (simp add: level_def)
  qed
qed

lemma chain_levels:
  assumes "distinct (tree_paths scs fs)" "ranges_over order (tree_nodeMap scs fs)"
  shows "chain (buildTree scs fs order) (a # cs) \<Longrightarrow> a < length (tree_paths scs fs) \<Longrightarrow>
         (\<forall>b \<in> set cs. b < length (tree_paths scs fs)
                        \<and> level (tree_paths scs fs) a < level (tree_paths scs fs) b)
         \<and> distinct (a # cs)"
proof (induction cs arbitrary: a)
  case Nil
  then show ?case by simp
next
  case (Cons b cs)
  have ch: "b \<in> set (Children (buildTree scs fs order ! a))"
    and rest: "chain (buildTree scs fs order) (b # cs)"
    using Cons.prems(1) by simp_all
  have b: "b < length (tree_paths scs fs)"
    "level (tree_paths scs fs) a < level (tree_paths scs fs) b"
    using child_level [OF assms Cons.prems(2) ch] by simp_all
  have ih: "\<forall>c \<in> set cs. c < length (tree_paths scs fs)
                        \<and> level (tree_paths scs fs) b < level (tree_paths scs fs) c"
    "distinct (b # cs)"
    using Cons.IH [OF rest b(1)] by simp_all
  have all: "\<forall>c \<in> set (b # cs). c < length (tree_paths scs fs)
                        \<and> level (tree_paths scs fs) a < level (tree_paths scs fs) c"
    using b ih(1) by auto
  then have "a \<notin> set (b # cs)" by auto
  then show ?case using all ih(2) by simp
qed

lemma chain_length:
  assumes "distinct (tree_paths scs fs)" "ranges_over order (tree_nodeMap scs fs)"
      and "chain (buildTree scs fs order) (a # cs)" "a < length (tree_paths scs fs)"
  shows "length (a # cs) \<le> length (tree_paths scs fs)"
proof -
  have l: "\<forall>b \<in> set cs. b < length (tree_paths scs fs)" and d: "distinct (a # cs)"
    using chain_levels [OF assms] by simp_all
  have "set (a # cs) \<subseteq> {..<length (tree_paths scs fs)}" using l assms(4) by auto
  then have "card (set (a # cs)) \<le> card {..<length (tree_paths scs fs)}"
    by (intro card_mono) simp_all
  then show ?thesis using distinct_card [OF d] by simp
qed

text \<open>The encoder returns: a depth of the number of nodes is enough.\<close>

lemma those_None: "those (map f xs) = None \<Longrightarrow> \<exists>x \<in> set xs. f x = None"
  by (induction xs) (auto split: option.splits)

lemma those_Some: "those (map f xs) = Some ys \<Longrightarrow> list_all2 (\<lambda>x y. f x = Some y) xs ys"
  by (induction xs arbitrary: ys) (auto split: option.splits)

lemma encode_None_chain: "encode n h a = None \<Longrightarrow> \<exists>cs. chain h (a # cs) \<and> length cs = n"
proof (induction n arbitrary: a)
  case 0
  then show ?case by simp
next
  case (Suc n)
  then have "those (map (encode n h) (Children (h ! a))) = None"
    by (simp split: option.splits)
  then obtain b where b: "b \<in> set (Children (h ! a))" "encode n h b = None"
    using those_None by blast
  then obtain cs where "chain h (b # cs)" "length cs = n" using Suc.IH by blast
  then have "chain h (a # b # cs) \<and> length (b # cs) = Suc n" using b(1) by simp
  then show ?case by blast
qed

lemma encode_returns:
  assumes "distinct (tree_paths scs fs)" "ranges_over order (tree_nodeMap scs fs)"
  shows "\<exists>t. encode (length (buildTree scs fs order)) (buildTree scs fs order) 0 = Some t"
proof (cases "encode (length (buildTree scs fs order)) (buildTree scs fs order) 0")
  case None
  then obtain cs where cs: "chain (buildTree scs fs order) (0 # cs)"
    "length cs = length (buildTree scs fs order)"
    using encode_None_chain by blast
  have "0 < length (tree_paths scs fs)" by (simp add: tree_paths_def)
  from chain_length [OF assms cs(1) this]
  show ?thesis using cs(2) by (simp add: buildTree_length tree_paths_length)
next
  case (Some t)
  then show ?thesis by simp
qed

text \<open>The nodes of the reply.\<close>

lemma encode_Some:
  assumes "encode n h a = Some t"
  shows "\<exists>n'. n = Suc n' \<and> is_node (h ! a) t
              \<and> list_all2 (\<lambda>b c. encode n' h b = Some c) (Children (h ! a)) (tChildren t)"
proof (cases n)
  case 0
  then show ?thesis using assms by simp
next
  case (Suc n')
  obtain cs where cs: "those (map (encode n' h) (Children (h ! a))) = Some cs"
    and t: "t = Tree (NodeID (h ! a)) (NodeName (h ! a)) (NodePath (h ! a)) (NodeType (h ! a))
                  (NodeLocked (h ! a)) cs"
    using assms unfolding Suc by (auto split: option.splits)
  have "list_all2 (\<lambda>b c. encode n' h b = Some c) (Children (h ! a)) cs"
    using cs by (rule those_Some)
  then show ?thesis unfolding t Suc by (simp add: is_node_def)
qed

lemma list_all2_left: "list_all2 R xs ys \<Longrightarrow> x \<in> set xs \<Longrightarrow> \<exists>y \<in> set ys. R x y"
  by (induction rule: list_all2_induct) auto

lemma list_all2_right: "list_all2 R xs ys \<Longrightarrow> y \<in> set ys \<Longrightarrow> \<exists>x \<in> set xs. R x y"
  by (induction rule: list_all2_induct) auto

lemma tnodes_self: "t \<in> set (tnodes t)"
  by (cases t) simp

lemma tnodes_child: "s \<in> set (tnodes t) \<Longrightarrow> c \<in> set (tChildren s) \<Longrightarrow> c \<in> set (tnodes t)"
proof (induction t)
  case (Tree i n p ty l cs)
  show ?case
  proof (cases "s = Tree i n p ty l cs")
    case True
    then have "c \<in> set cs" using Tree.prems(2) by simp
    then show ?thesis using tnodes_self [of c] by auto
  next
    case False
    then obtain c' where c': "c' \<in> set cs" "s \<in> set (tnodes c')"
      using Tree.prems(1) by auto
    then have "c \<in> set (tnodes c')" using Tree.IH Tree.prems(2) by blast
    then show ?thesis using c'(1) by auto
  qed
qed

lemma is_node_buildTree:
  assumes "a < length (tree_paths scs fs)"
  shows "is_node (buildTree scs fs order ! a) t
         \<longleftrightarrow> is_node ((rootNode # map snd (tree_nodes scs fs)) ! a) t"
proof -
  have a: "a < 1 + length fs + length scs" using assms by (simp add: tree_paths_def)
  show ?thesis unfolding is_node_def using buildTree_node [OF a, of order] by simp
qed

lemma encode_nodes:
  assumes "distinct (tree_paths scs fs)" "ranges_over order (tree_nodeMap scs fs)"
  shows "encode n (buildTree scs fs order) a = Some t \<Longrightarrow> a < length (tree_paths scs fs) \<Longrightarrow>
         s \<in> set (tnodes t) \<Longrightarrow>
         \<exists>b k. b < length (tree_paths scs fs) \<and> encode k (buildTree scs fs order) b = Some s"
proof (induction n arbitrary: a t)
  case 0
  then show ?case by simp
next
  case (Suc n)
  let ?h = "buildTree scs fs order"
  have l2: "list_all2 (\<lambda>b c. encode n ?h b = Some c) (Children (?h ! a)) (tChildren t)"
    using encode_Some [OF Suc.prems(1)] by simp
  show ?case
  proof (cases "s = t")
    case True
    then show ?thesis using Suc.prems(1,2) by blast
  next
    case False
    then obtain c where c: "c \<in> set (tChildren t)" "s \<in> set (tnodes c)"
      using Suc.prems(3) by (cases t) auto
    then obtain b where b: "b \<in> set (Children (?h ! a))" "encode n ?h b = Some c"
      using list_all2_right [OF l2] by blast
    have "b < length (tree_paths scs fs)"
      using child_level [OF assms Suc.prems(2) b(1)] by simp
    from Suc.IH [OF b(2) this c(2)] show ?thesis .
  qed
qed

text \<open>Every node but the root is reached from the root: it is a child of the node it
  was attached to.\<close>

lemma encode_reaches:
  assumes "distinct (tree_paths scs fs)" "ranges_over order (tree_nodeMap scs fs)"
      and "encode n (buildTree scs fs order) 0 = Some T"
  shows "0 < b \<Longrightarrow> b < length (tree_paths scs fs) \<Longrightarrow>
         \<exists>s \<in> set (tnodes T). \<exists>k.
            encode (Suc k) (buildTree scs fs order)
              (attach_target (tree_nodeMap scs fs) (tree_paths scs fs ! b)) = Some s
            \<and> (\<exists>c \<in> set (tChildren s). encode k (buildTree scs fs order) b = Some c)"
proof (induction "level (tree_paths scs fs) b" arbitrary: b rule: less_induct)
  case less
  let ?h = "buildTree scs fs order"
  let ?P = "tree_paths scs fs"
  define a where "a = attach_target (tree_nodeMap scs fs) (?P ! b)"
  have a: "a < length ?P"
    unfolding a_def tree_paths_length by (rule attach_target_bound)
  have ch: "b \<in> set (Children (?h ! a))"
    unfolding buildTree_children_iff [OF assms(1,2) a] using less.prems a_def by simp
  have step: "\<exists>k. encode (Suc k) ?h a = Some s
            \<and> (\<exists>c \<in> set (tChildren s). encode k ?h b = Some c)"
    if enc: "encode n' ?h a = Some s" for n' s
  proof -
    obtain k where k: "n' = Suc k"
      "list_all2 (\<lambda>b c. encode k ?h b = Some c) (Children (?h ! a)) (tChildren s)"
      using encode_Some [OF enc] by blast
    then show ?thesis using list_all2_left [OF k(2) ch] enc by blast
  qed
  show ?case
  proof (cases "a = 0")
    case True
    have "\<exists>k. encode (Suc k) ?h a = Some T
            \<and> (\<exists>c \<in> set (tChildren T). encode k ?h b = Some c)"
      using step [of n T] assms(3) True by simp
    then show ?thesis unfolding a_def [symmetric] using tnodes_self [of T] by blast
  next
    case False
    have "level ?P a < level ?P b" using child_level [OF assms(1,2) a ch] by simp
    from less.hyps [OF this _ a] False
    obtain s' k' c' where s': "s' \<in> set (tnodes T)" "c' \<in> set (tChildren s')"
      "encode k' ?h a = Some c'"
      by auto
    have "c' \<in> set (tnodes T)" using s'(1,2) by (rule tnodes_child)
    then show ?thesis unfolding a_def [symmetric] using step [OF s'(3)] by blast
  qed
qed

text \<open>Walking down the reply along the ancestor prefixes of a path.\<close>

lemma filter_empty_right:
  "list_all2 R xs ys \<Longrightarrow> (\<And>x y. x \<in> set xs \<Longrightarrow> R x y \<Longrightarrow> \<not> Q y) \<Longrightarrow> filter Q ys = []"
proof (induction rule: list_all2_induct)
  case Nil
  then show ?case by simp
next
  case (Cons x xs y ys)
  have "\<not> Q y" using Cons.prems [of x y] Cons.hyps(1) by simp
  moreover have "filter Q ys = []"
  proof (rule Cons.IH)
    fix x' y' assume "x' \<in> set xs" "R x' y'"
    then show "\<not> Q y'" using Cons.prems [of x' y'] by simp
  qed
  ultimately show ?case by simp
qed

lemma filter_one_right:
  "list_all2 R xs ys \<Longrightarrow> distinct xs \<Longrightarrow> b \<in> set xs \<Longrightarrow>
   (\<And>x y. x \<in> set xs \<Longrightarrow> R x y \<Longrightarrow> Q y \<longleftrightarrow> x = b) \<Longrightarrow>
   \<exists>c. filter Q ys = [c] \<and> R b c"
proof (induction rule: list_all2_induct)
  case Nil
  then show ?case by simp
next
  case (Cons x xs y ys)
  have key: "\<And>x' y'. x' \<in> set xs \<Longrightarrow> R x' y' \<Longrightarrow> Q y' \<longleftrightarrow> x' = b"
    using Cons.prems(3) by simp
  show ?case
  proof (cases "x = b")
    case True
    have qy: "Q y" using Cons.prems(3) [of x y] Cons.hyps(1) True by simp
    have "b \<notin> set xs" using Cons.prems(1) True by simp
    then have "\<And>x' y'. x' \<in> set xs \<Longrightarrow> R x' y' \<Longrightarrow> \<not> Q y'" using key by blast
    then have "filter Q ys = []" using Cons.hyps(2) by (rule filter_empty_right [rotated])
    then show ?thesis using qy Cons.hyps(1) True by simp
  next
    case False
    have nq: "\<not> Q y" using Cons.prems(3) [of x y] Cons.hyps(1) False by simp
    have "distinct xs" "b \<in> set xs" using Cons.prems(1,2) False by simp_all
    from Cons.IH [OF this key] show ?thesis using nq by simp
  qed
qed

lemma walk_step:
  assumes "distinct (tree_paths scs fs)" "ranges_over order (tree_nodeMap scs fs)"
      and "encode n (buildTree scs fs order) a = Some t" "a < length (tree_paths scs fs)"
      and "0 < b" "b < length (tree_paths scs fs)"
      and "attach_target (tree_nodeMap scs fs) (tree_paths scs fs ! b) = a"
  shows "\<exists>c k. walk t [tree_paths scs fs ! b] = Some c
               \<and> encode k (buildTree scs fs order) b = Some c"
proof -
  let ?h = "buildTree scs fs order"
  let ?P = "tree_paths scs fs"
  obtain k where k: "list_all2 (\<lambda>b c. encode k ?h b = Some c) (Children (?h ! a)) (tChildren t)"
    using encode_Some [OF assms(3)] by blast
  have ch: "b \<in> set (Children (?h ! a))"
    unfolding buildTree_children_iff [OF assms(1,2,4)] using assms(5,6,7) by simp
  have d: "distinct (Children (?h ! a))"
    using assms(2,4) by (rule buildTree_children_distinct)
  have key: "tPath y = ?P ! b \<longleftrightarrow> x = b"
    if x: "x \<in> set (Children (?h ! a))" and y: "encode k ?h x = Some y" for x y
  proof -
    have xl: "x < length ?P" using child_level [OF assms(1,2,4) x] by simp
    have "is_node (?h ! x) y" using encode_Some [OF y] by blast
    then have "tPath y = ?P ! x" using buildTree_path [OF xl] by (simp add: is_node_def)
    then show ?thesis using assms(1,6) xl by (simp add: nth_eq_iff_index_eq)
  qed
  obtain c where c: "filter (\<lambda>y. tPath y = ?P ! b) (tChildren t) = [c]" "encode k ?h b = Some c"
    using filter_one_right [OF k d ch, of "\<lambda>y. tPath y = ?P ! b"] key by blast
  have "walk t [?P ! b] = Some c" using c(1) by simp
  then show ?thesis using c(2) by blast
qed

lemma walk_append:
  "walk t (ps @ qs) = (case walk t ps of None \<Rightarrow> None | Some t' \<Rightarrow> walk t' qs)"
proof (induction ps arbitrary: t)
  case Nil
  then show ?case by simp
next
  case (Cons p ps)
  show ?case
  proof (cases "filter (\<lambda>c. tPath c = p) (tChildren t)")
    case Nil
    then show ?thesis by simp
  next
    case (Cons c cs)
    then show ?thesis using Cons.IH by (cases cs) simp_all
  qed
qed

lemma folder_address:
  assumes "q \<in> FolderPath ` set fs"
  shows "\<exists>b. 0 < b \<and> b < length (tree_paths scs fs) \<and> tree_paths scs fs ! b = q"
proof -
  obtain i where i: "i < length fs" "FolderPath (fs ! i) = q"
    using assms by (auto simp: in_set_conv_nth)
  have "tree_paths scs fs ! Suc i = q" using i by (simp add: tree_paths_def nth_append)
  moreover have "Suc i < length (tree_paths scs fs)" using i by (simp add: tree_paths_def)
  ultimately show ?thesis by blast
qed

lemma walk_prefixes:
  assumes "distinct (tree_paths scs fs)" "ranges_over order (tree_nodeMap scs fs)"
      and "encode n (buildTree scs fs order) 0 = Some T"
      and "parts = Split s CHR ''/''"
      and "\<forall>i. 1 \<le> i \<and> i < length parts \<longrightarrow> prefixPath parts i \<in> FolderPath ` set fs"
  shows "k < length parts \<Longrightarrow>
         \<exists>t a n'. walk T (map (prefixPath parts) [1..<Suc k]) = Some t
                  \<and> encode n' (buildTree scs fs order) a = Some t
                  \<and> a < length (tree_paths scs fs)
                  \<and> tree_paths scs fs ! a = (if k = 0 then ''/'' else prefixPath parts k)"
proof (induction k)
  case 0
  have "tree_paths scs fs ! 0 = ''/''" "0 < length (tree_paths scs fs)"
    by (simp_all add: tree_paths_def)
  then show ?case using assms(3) by auto
next
  case (Suc k)
  let ?P = "tree_paths scs fs"
  obtain t a n' where t: "walk T (map (prefixPath parts) [1..<Suc k]) = Some t"
    "encode n' (buildTree scs fs order) a = Some t" "a < length ?P"
    "?P ! a = (if k = 0 then ''/'' else prefixPath parts k)"
    using Suc by auto
  have "prefixPath parts (Suc k) \<in> FolderPath ` set fs" using assms(5) Suc.prems by simp
  then obtain b where b: "0 < b" "b < length ?P" "?P ! b = prefixPath parts (Suc k)"
    using folder_address by blast
  have "getParentPath (prefixPath parts (Suc k)) = ?P ! a"
    using getParentPath_prefixPath [OF assms(4), of "Suc k"] Suc.prems t(4) by simp
  then have at: "attach_target (tree_nodeMap scs fs) (?P ! b) = a"
    unfolding b(3) using assms(1) t(3) by (intro attach_target_Some)
  obtain c k' where c: "walk t [?P ! b] = Some c" "encode k' (buildTree scs fs order) b = Some c"
    using walk_step [OF assms(1,2) t(2,3) b(1,2) at] by blast
  have e: "map (prefixPath parts) [1..<Suc (Suc k)]
          = map (prefixPath parts) [1..<Suc k] @ [?P ! b]"
    unfolding b(3) by simp
  have w: "walk T (map (prefixPath parts) [1..<Suc (Suc k)]) = Some c"
    by (simp only: e walk_append t(1) option.case c(1))
  have "?P ! b = (if Suc k = 0 then ''/'' else prefixPath parts (Suc k))"
    using b(3) by simp
  then show ?case using w c(2) b(2) by blast
qed

text \<open>The records in the reply.\<close>

lemma heap_cells:
  "(rootNode # map snd (tree_nodes scs fs)) ! 0 = rootNode"
  "i < length fs \<Longrightarrow> (rootNode # map snd (tree_nodes scs fs)) ! (1 + i) = folderNode (fs ! i)"
  "j < length scs \<Longrightarrow>
     (rootNode # map snd (tree_nodes scs fs)) ! (1 + length fs + j) = scriptNode (scs ! j)"
  by (simp_all add: tree_nodes_def nth_append)

lemma heap_cell_cases:
  assumes "b < length (tree_paths scs fs)"
  shows "(rootNode # map snd (tree_nodes scs fs)) ! b = rootNode
       \<or> (\<exists>f \<in> set fs. (rootNode # map snd (tree_nodes scs fs)) ! b = folderNode f)
       \<or> (\<exists>sc \<in> set scs. (rootNode # map snd (tree_nodes scs fs)) ! b = scriptNode sc)"
proof -
  consider "b = 0" | i where "b = 1 + i" "i < length fs"
    | j where "b = 1 + length fs + j" "j < length scs"
  proof (cases "b = 0")
    case True
    then show ?thesis using that(1) by simp
  next
    case False
    show ?thesis
    proof (cases "b - 1 < length fs")
      case True
      then show ?thesis using that(2) [of "b - 1"] False by simp
    next
      case False
      then have "b = 1 + length fs + (b - 1 - length fs)" "b - 1 - length fs < length scs"
        using assms \<open>b \<noteq> 0\<close> by (simp_all add: tree_paths_def)
      then show ?thesis using that(3) by blast
    qed
  qed
  then show ?thesis
  proof cases
    case 1
    then show ?thesis using heap_cells(1) by simp
  next
    case (2 i)
    then show ?thesis using heap_cells(2) [of i fs scs] nth_mem [of i fs] by auto
  next
    case (3 j)
    then show ?thesis using heap_cells(3) [of j scs fs] nth_mem [of j scs] by auto
  qed
qed

lemma node_known:
  assumes "distinct (tree_paths scs fs)" "ranges_over order (tree_nodeMap scs fs)"
      and "encode n (buildTree scs fs order) 0 = Some T" "s \<in> set (tnodes T)"
  shows "is_node rootNode s \<or> (\<exists>f \<in> set fs. is_node (folderNode f) s)
         \<or> (\<exists>sc \<in> set scs. is_node (scriptNode sc) s)"
proof -
  have "0 < length (tree_paths scs fs)" by (simp add: tree_paths_def)
  from encode_nodes [OF assms(1,2,3) this assms(4)]
  obtain b k where b: "b < length (tree_paths scs fs)"
    "encode k (buildTree scs fs order) b = Some s"
    by blast
  have "is_node (buildTree scs fs order ! b) s" using encode_Some [OF b(2)] by blast
  then have "is_node ((rootNode # map snd (tree_nodes scs fs)) ! b) s"
    unfolding is_node_buildTree [OF b(1)] .
  then show ?thesis using heap_cell_cases [OF b(1)] by metis
qed

lemma record_linked:
  assumes "distinct (tree_paths scs fs)" "ranges_over order (tree_nodeMap scs fs)"
      and "encode n (buildTree scs fs order) 0 = Some T"
      and "0 < b" "b < length (tree_paths scs fs)"
  shows "\<exists>s \<in> set (tnodes T). \<exists>c \<in> set (tChildren s).
           is_node ((rootNode # map snd (tree_nodes scs fs)) ! b) c
           \<and> tPath s = (if getParentPath (tree_paths scs fs ! b) \<in> set (tree_paths scs fs)
                        then getParentPath (tree_paths scs fs ! b) else ''/'')"
proof -
  let ?h = "buildTree scs fs order"
  let ?P = "tree_paths scs fs"
  define a where "a = attach_target (tree_nodeMap scs fs) (?P ! b)"
  have a: "a < length ?P" unfolding a_def tree_paths_length by (rule attach_target_bound)
  obtain s k c where s: "s \<in> set (tnodes T)" "encode (Suc k) ?h a = Some s"
    "c \<in> set (tChildren s)" "encode k ?h b = Some c"
    using encode_reaches [OF assms] unfolding a_def by blast
  have "is_node (?h ! b) c" using encode_Some [OF s(4)] by blast
  then have c: "is_node ((rootNode # map snd (tree_nodes scs fs)) ! b) c"
    unfolding is_node_buildTree [OF assms(5)] .
  have "is_node (?h ! a) s" using encode_Some [OF s(2)] by blast
  then have ps: "tPath s = ?P ! a" using buildTree_path [OF a] by (simp add: is_node_def)
  have "?P ! a = (if getParentPath (?P ! b) \<in> set ?P then getParentPath (?P ! b) else ''/'')"
  proof (cases "getParentPath (?P ! b) \<in> set ?P")
    case True
    then obtain a' where a': "a' < length ?P" "getParentPath (?P ! b) = ?P ! a'"
      by (metis in_set_conv_nth)
    have "a = a'" unfolding a_def using assms(1) a' by (rule attach_target_Some)
    then show ?thesis using True a'(2) by simp
  next
    case False
    then have "a = 0" unfolding a_def by (rule attach_target_None)
    then show ?thesis using False by (simp add: tree_paths_def)
  qed
  then show ?thesis using s(1,3) c ps by auto
qed

lemma ancestors_set:
  "set (ancestors p)
     = {prefixPath (Split (TrimPrefix p ''/'') CHR ''/'') i | i.
          1 \<le> i \<and> i < length (Split (TrimPrefix p ''/'') CHR ''/'')}"
  by (auto simp: ancestors_def Let_def)

lemma script_leaf:
  assumes "distinct (tree_paths scs fs)" "ranges_over order (tree_nodeMap scs fs)"
      and "\<forall>p \<in> set (tree_paths scs fs). set (ancestors p) \<subseteq> FolderPath ` set fs"
      and "j < length scs"
  shows "Children (buildTree scs fs order ! (1 + length fs + j)) = []"
proof (rule ccontr)
  let ?P = "tree_paths scs fs"
  let ?b = "1 + length fs + j"
  assume "Children (buildTree scs fs order ! ?b) \<noteq> []"
  then obtain c where c: "c \<in> set (Children (buildTree scs fs order ! ?b))"
    by (cases "Children (buildTree scs fs order ! ?b)") auto
  have b: "?b < length ?P" "?b \<noteq> 0" using assms(4) by (simp_all add: tree_paths_def)
  have c': "0 < c" "c < length ?P" "attach_target (tree_nodeMap scs fs) (?P ! c) = ?b"
    using c unfolding buildTree_children_iff [OF assms(1,2) b(1)] by simp_all
  have par: "?P ! ?b = getParentPath (?P ! c)"
    using attach_target_parent [OF assms(1) c'(3) b(2)] by simp
  have nr: "?P ! ?b \<noteq> ''/''" using tree_paths_root [OF assms(1) b(1)] by simp
  have cr: "?P ! c \<noteq> ''/''" using tree_paths_root [OF assms(1) c'(2)] c'(1) by simp
  define parts where "parts = Split (TrimPrefix (?P ! c) ''/'') CHR ''/''"
  have g: "getParentPath (?P ! c)
           = (if length parts \<le> 1 then ''/'' else prefixPath parts (length parts - 1))"
    using getParentPath_parts [OF parts_def cr] .
  then have l: "1 < length parts" using nr par by (cases "length parts \<le> 1") auto
  then have "prefixPath parts (length parts - 1) \<in> set (ancestors (?P ! c))"
    unfolding ancestors_set parts_def [symmetric]
    by (intro CollectI exI [of _ "length parts - 1"]) auto
  moreover have "?P ! c \<in> set ?P" using c'(2) by simp
  ultimately have "prefixPath parts (length parts - 1) \<in> FolderPath ` set fs"
    using assms(3) by blast
  then have "?P ! ?b \<in> FolderPath ` set fs" using par g l by simp
  then obtain i where i: "i < length fs" "FolderPath (fs ! i) = ?P ! ?b"
    by (auto simp: in_set_conv_nth)
  have "?P ! (1 + i) = ?P ! ?b" using i by (simp add: tree_paths_def nth_append)
  moreover have "1 + i < length ?P" using i by (simp add: tree_paths_def)
  ultimately have "1 + i = ?b" using assms(1) b(1) nth_eq_iff_index_eq by blast
  then show False using i(1) by simp
qed

lemma script_walk:
  assumes "distinct (tree_paths scs fs)" "ranges_over order (tree_nodeMap scs fs)"
      and "encode n (buildTree scs fs order) 0 = Some T"
      and "\<forall>p \<in> set (tree_paths scs fs). set (ancestors p) \<subseteq> FolderPath ` set fs"
      and "j < length scs"
  shows "walk T (ancestors (Path (scs ! j)) @ [Path (scs ! j)])
           = Some (Tree (ID (scs ! j)) (Name (scs ! j)) (Path (scs ! j)) ''script''
                     (Locked (scs ! j) \<noteq> 0) [])"
proof -
  let ?h = "buildTree scs fs order"
  let ?P = "tree_paths scs fs"
  let ?b = "1 + length fs + j"
  define p where "p = Path (scs ! j)"
  define parts where "parts = Split (TrimPrefix p ''/'') CHR ''/''"
  have b: "?b < length ?P" "0 < ?b" using assms(5) by (simp_all add: tree_paths_def)
  have pb: "?P ! ?b = p" unfolding p_def using assms(5) by (simp add: tree_paths_def nth_append)
  have pin: "p \<in> set ?P" using b(1) pb nth_mem by metis
  have nr: "p \<noteq> ''/''" using tree_paths_root [OF assms(1) b(1)] pb by simp
  have inv: "\<forall>i. 1 \<le> i \<and> i < length parts \<longrightarrow> prefixPath parts i \<in> FolderPath ` set fs"
    using assms(4) pin unfolding ancestors_set parts_def by blast
  have len: "0 < length parts" unfolding parts_def using Split_not_empty by blast
  then have "length parts - 1 < length parts" by simp
  from walk_prefixes [OF assms(1,2,3) parts_def inv this]
  obtain t a n' where t: "walk T (map (prefixPath parts) [1..<Suc (length parts - 1)]) = Some t"
    "encode n' ?h a = Some t" "a < length ?P"
    "?P ! a = (if length parts - 1 = 0 then ''/'' else prefixPath parts (length parts - 1))"
    by blast
  have anc: "ancestors p = map (prefixPath parts) [1..<Suc (length parts - 1)]"
    unfolding ancestors_def parts_def [symmetric] Let_def using len by simp
  have "getParentPath p = ?P ! a"
    using getParentPath_parts [OF parts_def nr] t(4) len by (cases "length parts \<le> 1") auto
  then have at: "attach_target (tree_nodeMap scs fs) (?P ! ?b) = a"
    unfolding pb using assms(1) t(3) by (intro attach_target_Some)
  obtain c k where c: "walk t [?P ! ?b] = Some c" "encode k ?h ?b = Some c"
    using walk_step [OF assms(1,2) t(2,3) b(2,1) at] by blast
  have w: "walk T (ancestors p @ [p]) = Some c"
    using c(1) unfolding pb by (simp only: anc walk_append t(1) option.case)
  obtain k' where k': "is_node (?h ! ?b) c"
    "list_all2 (\<lambda>b c. encode k' ?h b = Some c) (Children (?h ! ?b)) (tChildren c)"
    using encode_Some [OF c(2)] by blast
  have "is_node (scriptNode (scs ! j)) c"
    using k'(1) unfolding is_node_buildTree [OF b(1)] heap_cells(3) [OF assms(5)] .
  moreover have "tChildren c = []"
    using k'(2) unfolding script_leaf [OF assms(1,2,4,5)] by simp
  ultimately have "c = Tree (ID (scs ! j)) (Name (scs ! j)) (Path (scs ! j)) ''script''
                     (Locked (scs ! j) \<noteq> 0) []"
    by (cases c) (simp add: is_node_def scriptNode_def)
  then show ?thesis using w unfolding p_def by simp
qed

text \<open>No path occurs twice in the reply.\<close>

lemma node_parent_level:
  assumes "distinct (tree_paths scs fs)" "ranges_over order (tree_nodeMap scs fs)"
      and "x < length (tree_paths scs fs)"
  shows "node_parent scs fs x < length (tree_paths scs fs)
         \<and> level (tree_paths scs fs) (node_parent scs fs x) \<le> level (tree_paths scs fs) x
         \<and> (x \<noteq> 0 \<longrightarrow>
              level (tree_paths scs fs) (node_parent scs fs x) < level (tree_paths scs fs) x)"
proof -
  let ?P = "tree_paths scs fs"
  have a: "node_parent scs fs x < length ?P"
    unfolding node_parent_def tree_paths_length by (rule attach_target_bound)
  show ?thesis
  proof (cases "x = 0")
    case True
    have r: "?P ! 0 = ''/''" "0 < length ?P" by (simp_all add: tree_paths_def)
    have "map_of (tree_nodeMap scs fs) ''/'' = Some 0"
      using tree_nodeMap_lookup [OF assms(1) r(2)] unfolding r(1) .
    then have "node_parent scs fs 0 = 0"
      using r(1) by (simp add: node_parent_def attach_target_def getParentPath_def)
    then show ?thesis using True a by simp
  next
    case False
    then have "x \<in> set (Children (buildTree scs fs order ! node_parent scs fs x))"
      unfolding buildTree_children_iff [OF assms(1,2) a] using assms(3)
      by (simp add: node_parent_def)
    from child_level [OF assms(1,2) a this] show ?thesis using a by simp
  qed
qed

lemma node_parent_pow:
  assumes "distinct (tree_paths scs fs)" "ranges_over order (tree_nodeMap scs fs)"
      and "x < length (tree_paths scs fs)"
  shows "(node_parent scs fs ^^ k) x < length (tree_paths scs fs)
         \<and> level (tree_paths scs fs) ((node_parent scs fs ^^ k) x) \<le> level (tree_paths scs fs) x"
proof (induction k)
  case 0
  then show ?case using assms(3) by simp
next
  case (Suc k)
  then have y: "(node_parent scs fs ^^ k) x < length (tree_paths scs fs)"
    and l: "level (tree_paths scs fs) ((node_parent scs fs ^^ k) x) \<le> level (tree_paths scs fs) x"
    by simp_all
  from node_parent_level [OF assms(1,2) y] l show ?case by simp
qed

lemma above_sibling:
  assumes "distinct (tree_paths scs fs)" "ranges_over order (tree_nodeMap scs fs)"
      and "a < length (tree_paths scs fs)"
      and "c1 \<in> set (Children (buildTree scs fs order ! a))"
      and "c2 \<in> set (Children (buildTree scs fs order ! a))"
      and "(node_parent scs fs ^^ i) b = c1" "(node_parent scs fs ^^ j) b = c2" "i < j"
  shows False
proof -
  let ?np = "node_parent scs fs"
  obtain k where k: "j = Suc k + i" using assms(8) by (metis less_imp_Suc_add add.commute add_Suc)
  have "c2 = (?np ^^ Suc k) ((?np ^^ i) b)"
    using assms(7) unfolding k by (simp only: funpow_add o_apply)
  also have "\<dots> = (?np ^^ k) (?np c1)"
    unfolding assms(6) by (simp only: funpow_Suc_right o_apply)
  also have "?np c1 = a"
    using assms(4) unfolding buildTree_children_iff [OF assms(1,2,3)]
    by (simp add: node_parent_def)
  finally have "level (tree_paths scs fs) c2 \<le> level (tree_paths scs fs) a"
    using node_parent_pow [OF assms(1,2,3), of k] by simp
  then show False using child_level [OF assms(1,2,3,5)] by simp
qed

lemma siblings_disjoint:
  assumes "distinct (tree_paths scs fs)" "ranges_over order (tree_nodeMap scs fs)"
      and "a < length (tree_paths scs fs)"
      and "c1 \<in> set (Children (buildTree scs fs order ! a))"
      and "c2 \<in> set (Children (buildTree scs fs order ! a))"
      and "(node_parent scs fs ^^ i) b = c1" "(node_parent scs fs ^^ j) b = c2"
  shows "c1 = c2"
proof -
  consider "i < j" | "j < i" | "i = j" by linarith
  then show ?thesis
  proof cases
    case 1
    then show ?thesis using above_sibling [OF assms(1,2,3,4,5,6,7)] by simp
  next
    case 2
    then show ?thesis using above_sibling [OF assms(1,2,3,5,4,7,6)] by simp
  next
    case 3
    then show ?thesis using assms(6,7) by simp
  qed
qed

lemma distinct_concat_map:
  "distinct xs \<Longrightarrow> (\<And>x. x \<in> set xs \<Longrightarrow> distinct (g x)) \<Longrightarrow>
   (\<And>x y. x \<in> set xs \<Longrightarrow> y \<in> set xs \<Longrightarrow> x \<noteq> y \<Longrightarrow> set (g x) \<inter> set (g y) = {}) \<Longrightarrow>
   distinct (concat (map g xs))"
proof (induction xs)
  case Nil
  then show ?case by simp
next
  case (Cons x xs)
  have 1: "distinct (g x)" using Cons.prems(2) by simp
  have 2: "distinct (concat (map g xs))"
  proof (rule Cons.IH)
    show "distinct xs" using Cons.prems(1) by simp
    show "\<And>y. y \<in> set xs \<Longrightarrow> distinct (g y)" using Cons.prems(2) by simp
    show "\<And>y z. y \<in> set xs \<Longrightarrow> z \<in> set xs \<Longrightarrow> y \<noteq> z \<Longrightarrow> set (g y) \<inter> set (g z) = {}"
      using Cons.prems(3) by simp
  qed
  have 3: "set (g x) \<inter> set (g y) = {}" if "y \<in> set xs" for y
    using Cons.prems(3) [of x y] Cons.prems(1) that by auto
  show ?case using 1 2 3 by auto
qed

lemma list_all2_map_the:
  "list_all2 (\<lambda>x y. f x = Some y) xs ys \<Longrightarrow> ys = map (\<lambda>x. the (f x)) xs"
  by (induction rule: list_all2_induct) simp_all

lemma encode_distinct:
  assumes "distinct (tree_paths scs fs)" "ranges_over order (tree_nodeMap scs fs)"
  shows "encode n (buildTree scs fs order) a = Some t \<Longrightarrow> a < length (tree_paths scs fs) \<Longrightarrow>
         distinct (map tPath (tnodes t))
         \<and> (\<forall>q \<in> set (map tPath (tnodes t)). \<exists>b i. b < length (tree_paths scs fs)
                \<and> q = tree_paths scs fs ! b \<and> (node_parent scs fs ^^ i) b = a)"
proof (induction n arbitrary: a t)
  case 0
  then show ?case by simp
next
  case (Suc n)
  let ?h = "buildTree scs fs order"
  let ?P = "tree_paths scs fs"
  let ?np = "node_parent scs fs"
  let ?Ch = "Children (?h ! a)"
  define g where "g = (\<lambda>b. map tPath (tnodes (the (encode n ?h b))))"
  have node: "is_node (?h ! a) t"
    and l2: "list_all2 (\<lambda>b c. encode n ?h b = Some c) ?Ch (tChildren t)"
    using encode_Some [OF Suc.prems(1)] by simp_all
  have pt: "tPath t = ?P ! a" using node buildTree_path [OF Suc.prems(2)] by (simp add: is_node_def)
  have cs: "tChildren t = map (\<lambda>b. the (encode n ?h b)) ?Ch"
    using l2 by (rule list_all2_map_the)
  have paths: "map tPath (tnodes t) = ?P ! a # concat (map g ?Ch)"
    using pt cs unfolding g_def by (cases t) (simp add: map_concat comp_def)
  have child: "distinct (g c)
      \<and> (\<forall>q \<in> set (g c). \<exists>b i. b < length ?P \<and> q = ?P ! b \<and> (?np ^^ i) b = c)"
    if c: "c \<in> set ?Ch" for c
  proof -
    obtain y where y: "y \<in> set (tChildren t)" "encode n ?h c = Some y"
      using list_all2_left [OF l2 c] by blast
    have "c < length ?P" using child_level [OF assms Suc.prems(2) c] by simp
    from Suc.IH [OF y(2) this] show ?thesis unfolding g_def y(2) by simp
  qed
  have under: "\<exists>b i. b < length ?P \<and> q = ?P ! b \<and> (?np ^^ Suc i) b = a \<and> b \<noteq> a"
    if q: "q \<in> set (concat (map g ?Ch))" for q
  proof -
    obtain c where c: "c \<in> set ?Ch" "q \<in> set (g c)" using q by auto
    then obtain b i where b: "b < length ?P" "q = ?P ! b" "(?np ^^ i) b = c"
      using child by blast
    have "?np c = a"
      using c(1) unfolding buildTree_children_iff [OF assms Suc.prems(2)]
      by (simp add: node_parent_def)
    then have up: "(?np ^^ Suc i) b = a" using b(3) by simp
    have "level ?P a < level ?P c" using child_level [OF assms Suc.prems(2) c(1)] by simp
    moreover have "level ?P c \<le> level ?P b"
      using node_parent_pow [OF assms b(1), of i] unfolding b(3) by simp
    ultimately have "b \<noteq> a" by auto
    then show ?thesis using b(1,2) up by blast
  qed
  have d1: "distinct (concat (map g ?Ch))"
  proof (rule distinct_concat_map)
    show "distinct ?Ch" using assms(2) Suc.prems(2) by (rule buildTree_children_distinct)
    show "\<And>c. c \<in> set ?Ch \<Longrightarrow> distinct (g c)" using child by blast
    show "set (g c1) \<inter> set (g c2) = {}"
      if c: "c1 \<in> set ?Ch" "c2 \<in> set ?Ch" "c1 \<noteq> c2" for c1 c2
    proof (rule ccontr)
      assume "set (g c1) \<inter> set (g c2) \<noteq> {}"
      then obtain q where q: "q \<in> set (g c1)" "q \<in> set (g c2)" by blast
      obtain b1 i where b1: "b1 < length ?P" "q = ?P ! b1" "(?np ^^ i) b1 = c1"
        using child [OF c(1)] q(1) by blast
      obtain b2 j where b2: "b2 < length ?P" "q = ?P ! b2" "(?np ^^ j) b2 = c2"
        using child [OF c(2)] q(2) by blast
      have "b1 = b2" using assms(1) b1(1,2) b2(1,2) nth_eq_iff_index_eq by metis
      then show False
        using siblings_disjoint [OF assms Suc.prems(2) c(1,2) b1(3)] b2(3) c(3) by blast
    qed
  qed
  have d2: "?P ! a \<notin> set (concat (map g ?Ch))"
  proof
    assume "?P ! a \<in> set (concat (map g ?Ch))"
    then obtain b where "b < length ?P" "?P ! a = ?P ! b" "b \<noteq> a" using under by blast
    then show False using assms(1) Suc.prems(2) nth_eq_iff_index_eq by metis
  qed
  have "\<exists>b i. b < length ?P \<and> q = ?P ! b \<and> (?np ^^ i) b = a"
    if "q \<in> set (map tPath (tnodes t))" for q
  proof (cases "q = ?P ! a")
    case True
    have "(?np ^^ 0) a = a" by simp
    then show ?thesis using True Suc.prems(2) by blast
  next
    case False
    then have "q \<in> set (concat (map g ?Ch))" using that unfolding paths by simp
    then show ?thesis using under by blast
  qed
  then show ?case unfolding paths using d1 d2 by simp
qed

text \<open>
  Claim C3, as amended. Take any scripts and folders in which no two records share a path
  and none has the path \<^verbatim>\<open>/\<close>, and any order in which the map is ranged over. Then
  \<open>APIGetTree\<close> replies with a tree, whose root is the root node, and in which

  \<^item> every node is the root or the node of a folder record or of a script: the handler
    creates no node for a path prefix that has no record;
  \<^item> no path occurs twice;
  \<^item> every folder and every script is the child of the node of its parent path when that
    path has a record, and a child of the root otherwise;
  \<^item> when every proper prefix of every path has a folder record (the state that
    \<open>ensureFolders\<close> establishes), each script is a leaf under its full chain of ancestor
    path segments: going down from the root through the prefixes of its path, each time
    into the only child with that path, ends at the script, which has no children.

  In particular, for the folders \<^verbatim>\<open>/a\<close>, \<^verbatim>\<open>/a/b\<close> and the scripts \<^verbatim>\<open>/a/b/c.sh\<close>,
  \<^verbatim>\<open>/x.sh\<close> the root has the two children \<^verbatim>\<open>a\<close> (with child \<^verbatim>\<open>b\<close>, with child
  \<^verbatim>\<open>c.sh\<close>) and \<^verbatim>\<open>x.sh\<close>, in whichever order the map is ranged over, and no node
  twice.
\<close>

theorem tree_placement:
  "(scs = ListScripts db \<and> fs = ListFolders db
      \<and> distinct (tree_paths scs fs) \<and> ranges_over order (tree_nodeMap scs fs) \<longrightarrow>
      (\<exists>T. APIGetTree db order = TreeJSON (Some T)
         \<and> is_node rootNode T
         \<and> (\<forall>s \<in> set (tnodes T).
               is_node rootNode s \<or> (\<exists>f \<in> set fs. is_node (folderNode f) s)
               \<or> (\<exists>sc \<in> set scs. is_node (scriptNode sc) s))
         \<and> distinct (map tPath (tnodes T))
         \<and> (\<forall>f \<in> set fs. \<exists>s \<in> set (tnodes T). \<exists>c \<in> set (tChildren s).
               is_node (folderNode f) c
               \<and> tPath s = (if getParentPath (FolderPath f) \<in> set (tree_paths scs fs)
                            then getParentPath (FolderPath f) else ''/''))
         \<and> (\<forall>sc \<in> set scs. \<exists>s \<in> set (tnodes T). \<exists>c \<in> set (tChildren s).
               is_node (scriptNode sc) c
               \<and> tPath s = (if getParentPath (Path sc) \<in> set (tree_paths scs fs)
                            then getParentPath (Path sc) else ''/''))
         \<and> ((\<forall>p \<in> set (tree_paths scs fs). set (ancestors p) \<subseteq> FolderPath ` set fs) \<longrightarrow>
              (\<forall>sc \<in> set scs.
                 walk T (ancestors (Path sc) @ [Path sc])
                   = Some (Tree (ID sc) (Name sc) (Path sc) ''script'' (Locked sc \<noteq> 0) [])))))
   \<and> (ranges_over order' (tree_nodeMap (ListScripts tree_db) (ListFolders tree_db)) \<longrightarrow>
       (\<exists>cs. APIGetTree tree_db order'
                = TreeJSON (Some (Tree ''root'' ''/'' ''/'' ''folder'' False cs))
          \<and> length cs = 2
          \<and> set cs =
              {Tree ''fa'' ''a'' ''/a'' ''folder'' False
                 [Tree ''fb'' ''b'' ''/a/b'' ''folder'' False
                    [Tree ''s1'' ''c.sh'' ''/a/b/c.sh'' ''script'' False []]],
               Tree ''s2'' ''x.sh'' ''/x.sh'' ''script'' False []}))"
  (is "(?pre \<longrightarrow> ?general) \<and> (?pre' \<longrightarrow> ?example)")
proof (rule conjI; rule impI)
  assume pre: ?pre
  have lists: "ListScripts db = scs" "ListFolders db = fs" using pre by simp_all
  have d: "distinct (tree_paths scs fs)" using pre by blast
  have ro: "ranges_over order (tree_nodeMap scs fs)" using pre by blast
  let ?h = "buildTree scs fs order"
  let ?P = "tree_paths scs fs"
  obtain T where T: "encode (length ?h) ?h 0 = Some T"
    using encode_returns [OF d ro] by blast
  have reply: "APIGetTree db order = TreeJSON (Some T)"
    unfolding APIGetTree_def Let_def lists T ..
  have zero: "0 < length ?P" by (simp add: tree_paths_def)
  have "is_node (?h ! 0) T" using encode_Some [OF T] by blast
  then have root: "is_node rootNode T"
    unfolding is_node_buildTree [OF zero] by simp
  have known: "\<forall>s \<in> set (tnodes T).
               is_node rootNode s \<or> (\<exists>f \<in> set fs. is_node (folderNode f) s)
               \<or> (\<exists>sc \<in> set scs. is_node (scriptNode sc) s)"
    using node_known [OF d ro T] by blast
  have once: "distinct (map tPath (tnodes T))"
    using encode_distinct [OF d ro T zero] by blast
  have folders: "\<forall>f \<in> set fs. \<exists>s \<in> set (tnodes T). \<exists>c \<in> set (tChildren s).
               is_node (folderNode f) c
               \<and> tPath s = (if getParentPath (FolderPath f) \<in> set ?P
                            then getParentPath (FolderPath f) else ''/'')"
  proof
    fix f assume "f \<in> set fs"
    then obtain i where i: "i < length fs" "fs ! i = f" by (auto simp: in_set_conv_nth)
    have b: "0 < 1 + i" "1 + i < length ?P" using i by (simp_all add: tree_paths_def)
    have p: "?P ! (1 + i) = FolderPath f" using i by (simp add: tree_paths_def nth_append)
    from record_linked [OF d ro T b]
    show "\<exists>s \<in> set (tnodes T). \<exists>c \<in> set (tChildren s).
               is_node (folderNode f) c
               \<and> tPath s = (if getParentPath (FolderPath f) \<in> set ?P
                            then getParentPath (FolderPath f) else ''/'')"
      unfolding p heap_cells(2) [OF i(1)] i(2) .
  qed
  have scripts: "\<forall>sc \<in> set scs. \<exists>s \<in> set (tnodes T). \<exists>c \<in> set (tChildren s).
               is_node (scriptNode sc) c
               \<and> tPath s = (if getParentPath (Path sc) \<in> set ?P
                            then getParentPath (Path sc) else ''/'')"
  proof
    fix sc assume "sc \<in> set scs"
    then obtain j where j: "j < length scs" "scs ! j = sc" by (auto simp: in_set_conv_nth)
    have b: "0 < 1 + length fs + j" "1 + length fs + j < length ?P"
      using j by (simp_all add: tree_paths_def)
    have p: "?P ! (1 + length fs + j) = Path sc"
      using j by (simp add: tree_paths_def nth_append)
    from record_linked [OF d ro T b]
    show "\<exists>s \<in> set (tnodes T). \<exists>c \<in> set (tChildren s).
               is_node (scriptNode sc) c
               \<and> tPath s = (if getParentPath (Path sc) \<in> set ?P
                            then getParentPath (Path sc) else ''/'')"
      unfolding p heap_cells(3) [OF j(1)] j(2) .
  qed
  have chains: "(\<forall>p \<in> set ?P. set (ancestors p) \<subseteq> FolderPath ` set fs) \<longrightarrow>
              (\<forall>sc \<in> set scs.
                 walk T (ancestors (Path sc) @ [Path sc])
                   = Some (Tree (ID sc) (Name sc) (Path sc) ''script'' (Locked sc \<noteq> 0) []))"
  proof (intro impI ballI)
    fix sc assume inv: "\<forall>p \<in> set ?P. set (ancestors p) \<subseteq> FolderPath ` set fs"
      and "sc \<in> set scs"
    then obtain j where j: "j < length scs" "scs ! j = sc" by (auto simp: in_set_conv_nth)
    from script_walk [OF d ro T inv j(1)]
    show "walk T (ancestors (Path sc) @ [Path sc])
            = Some (Tree (ID sc) (Name sc) (Path sc) ''script'' (Locked sc \<noteq> 0) [])"
      unfolding j(2) .
  qed
  show ?general
    using reply root known once folders scripts chains by (intro exI [of _ T] conjI)
next
  assume ?pre'
  then have "ranges_over order' (tree_nodeMap tree_scripts tree_folders)"
    unfolding tree_example_lists .
  from tree_example [OF this]
  obtain cs where
    cs: "encode 5 (buildTree tree_scripts tree_folders order') 0
                = Some (Tree ''root'' ''/'' ''/'' ''folder'' False cs)
          \<and> length cs = 2
          \<and> set cs =
              {Tree ''fa'' ''a'' ''/a'' ''folder'' False
                 [Tree ''fb'' ''b'' ''/a/b'' ''folder'' False
                    [Tree ''s1'' ''c.sh'' ''/a/b/c.sh'' ''script'' False []]],
               Tree ''s2'' ''x.sh'' ''/x.sh'' ''script'' False []}"
    by blast
  have l5: "length (buildTree tree_scripts tree_folders order') = 5"
    unfolding buildTree_length by (simp add: tree_scripts_def tree_folders_def)
  have "APIGetTree tree_db order'
          = TreeJSON (encode 5 (buildTree tree_scripts tree_folders order') 0)"
    unfolding APIGetTree_def Let_def tree_example_lists l5 ..
  then show ?example using cs by (intro exI [of _ cs]) simp
qed

text \<open>
  Claim C3 as first worded has the tree hold a folder node for every prefix of a script's
  path. With the script \<^verbatim>\<open>/a/b/c.sh\<close> and no folder record, the tree is the root with
  the script as its only child, in either order of the visit: there is no node for
  \<^verbatim>\<open>/a\<close> or \<^verbatim>\<open>/a/b\<close>.
\<close>

theorem tree_no_implied_folder_counterexample:
  "APIGetTree \<lparr>scripts = [tree_script ''s1'' ''/a/b/c.sh'' ''c.sh''], folders = [],
               auth_tokens = [], audit_log = [], script_versions = []\<rparr>
     [(''/'', 0), (''/a/b/c.sh'', 1)]
   = TreeJSON (Some (Tree ''root'' ''/'' ''/'' ''folder'' False
        [Tree ''s1'' ''c.sh'' ''/a/b/c.sh'' ''script'' False []]))
   \<and> APIGetTree \<lparr>scripts = [tree_script ''s1'' ''/a/b/c.sh'' ''c.sh''], folders = [],
               auth_tokens = [], audit_log = [], script_versions = []\<rparr>
     [(''/a/b/c.sh'', 1), (''/'', 0)]
   = TreeJSON (Some (Tree ''root'' ''/'' ''/'' ''folder'' False
        [Tree ''s1'' ''c.sh'' ''/a/b/c.sh'' ''script'' False []]))
   \<and> tree_nodeMap [tree_script ''s1'' ''/a/b/c.sh'' ''c.sh''] []
       = [(''/'', 0), (''/a/b/c.sh'', 1)]"
  by (simp add: APIGetTree_def buildTree_def tree_nodeMap_def ListScripts_def ListFolders_def
        tree_script_def scriptNode_def rootNode_def getParentPath_def TrimPrefix_def
        HasPrefix_def append_child_def)

theorem tree_placement_witness:
  "ranges_over [(''/'', 0), (''/a'', 1), (''/a/b'', 2), (''/a/b/c.sh'', 3), (''/x.sh'', 4)]
     (tree_nodeMap (ListScripts tree_db) (ListFolders tree_db))
   \<and> tree_paths (ListScripts tree_db) (ListFolders tree_db)
       = [''/'', ''/a'', ''/a/b'', ''/a/b/c.sh'', ''/x.sh'']
   \<and> map ancestors [''/'', ''/a'', ''/a/b'', ''/a/b/c.sh'', ''/x.sh'']
       = [[], [], [''/a''], [''/a'', ''/a/b''], []]
   \<and> APIGetTree tree_db
         [(''/'', 0), (''/a'', 1), (''/a/b'', 2), (''/a/b/c.sh'', 3), (''/x.sh'', 4)]
       = TreeJSON (Some (Tree ''root'' ''/'' ''/'' ''folder'' False
           [Tree ''fa'' ''a'' ''/a'' ''folder'' False
              [Tree ''fb'' ''b'' ''/a/b'' ''folder'' False
                 [Tree ''s1'' ''c.sh'' ''/a/b/c.sh'' ''script'' False []]],
            Tree ''s2'' ''x.sh'' ''/x.sh'' ''script'' False []]))
   \<and> walk (Tree ''root'' ''/'' ''/'' ''folder'' False
           [Tree ''fa'' ''a'' ''/a'' ''folder'' False
              [Tree ''fb'' ''b'' ''/a/b'' ''folder'' False
                 [Tree ''s1'' ''c.sh'' ''/a/b/c.sh'' ''script'' False []]],
            Tree ''s2'' ''x.sh'' ''/x.sh'' ''script'' False []])
        [''/a'', ''/a/b'', ''/a/b/c.sh'']
       = Some (Tree ''s1'' ''c.sh'' ''/a/b/c.sh'' ''script'' False [])"
proof -
  let ?ord = "[(''/'', 0::nat), (''/a'', 1), (''/a/b'', 2), (''/a/b/c.sh'', 3), (''/x.sh'', 4)]"
  let ?T = "Tree ''root'' ''/'' ''/'' ''folder'' False
           [Tree ''fa'' ''a'' ''/a'' ''folder'' False
              [Tree ''fb'' ''b'' ''/a/b'' ''folder'' False
                 [Tree ''s1'' ''c.sh'' ''/a/b/c.sh'' ''script'' False []]],
            Tree ''s2'' ''x.sh'' ''/x.sh'' ''script'' False []]"
  have ro: "ranges_over ?ord (tree_nodeMap tree_scripts tree_folders)"
    unfolding tree_example_nodeMap ranges_over_def by simp
  have paths: "tree_paths tree_scripts tree_folders
                 = [''/'', ''/a'', ''/a/b'', ''/a/b/c.sh'', ''/x.sh'']"
    by (simp add: tree_paths_def tree_scripts_def tree_folders_def tree_script_def)
  have anc: "map ancestors [''/'', ''/a'', ''/a/b'', ''/a/b/c.sh'', ''/x.sh'']
       = [[], [], [''/a''], [''/a'', ''/a/b''], []]"
    by (simp add: ancestors_def TrimPrefix_def HasPrefix_def prefixPath_def Let_def
          upt_conv_Cons)
  have d: "distinct (tree_paths tree_scripts tree_folders)" unfolding paths by simp
  have inv: "\<forall>p \<in> set (tree_paths tree_scripts tree_folders).
               set (ancestors p) \<subseteq> FolderPath ` set tree_folders"
    unfolding paths using anc by (simp add: tree_folders_def)
  have tree: "APIGetTree tree_db ?ord = TreeJSON (Some ?T)"
    unfolding APIGetTree_def Let_def tree_example_lists
    by (simp add: buildTree_def tree_scripts_def tree_folders_def tree_script_def
          scriptNode_def folderNode_def rootNode_def getParentPath_def TrimPrefix_def
          HasPrefix_def append_child_def)
  have pre: "tree_scripts = ListScripts tree_db \<and> tree_folders = ListFolders tree_db
      \<and> distinct (tree_paths tree_scripts tree_folders)
      \<and> ranges_over ?ord (tree_nodeMap tree_scripts tree_folders)"
    using ro d tree_example_lists by simp
  from tree_placement [where scs = tree_scripts and db = tree_db and fs = tree_folders
      and order = ?ord, THEN conjunct1, rule_format, OF pre]
  obtain T where T: "APIGetTree tree_db ?ord = TreeJSON (Some T)"
    "(\<forall>p \<in> set (tree_paths tree_scripts tree_folders).
         set (ancestors p) \<subseteq> FolderPath ` set tree_folders) \<longrightarrow>
     (\<forall>sc \<in> set tree_scripts.
         walk T (ancestors (Path sc) @ [Path sc])
           = Some (Tree (ID sc) (Name sc) (Path sc) ''script'' (Locked sc \<noteq> 0) []))"
    by blast
  have "T = ?T" using T(1) tree by simp
  moreover have "tree_script ''s1'' ''/a/b/c.sh'' ''c.sh'' \<in> set tree_scripts"
    by (simp add: tree_scripts_def)
  ultimately have "walk ?T (ancestors (Path (tree_script ''s1'' ''/a/b/c.sh'' ''c.sh''))
                            @ [Path (tree_script ''s1'' ''/a/b/c.sh'' ''c.sh'')])
     = Some (Tree (ID (tree_script ''s1'' ''/a/b/c.sh'' ''c.sh''))
               (Name (tree_script ''s1'' ''/a/b/c.sh'' ''c.sh''))
               (Path (tree_script ''s1'' ''/a/b/c.sh'' ''c.sh'')) ''script''
               (Locked (tree_script ''s1'' ''/a/b/c.sh'' ''c.sh'') \<noteq> 0) [])"
    using T(2) inv by blast
  moreover have "ancestors ''/a/b/c.sh'' = [''/a'', ''/a/b'']" using anc by simp
  ultimately have w: "walk ?T [''/a'', ''/a/b'', ''/a/b/c.sh'']
       = Some (Tree ''s1'' ''c.sh'' ''/a/b/c.sh'' ''script'' False [])"
    by (simp add: tree_script_def)
  show ?thesis
    unfolding tree_example_lists using ro paths anc tree w by (intro conjI)
qed

end
